theory Spec2Isabelle
  imports Complex_Main
begin

section \<open>Strings\<close>

text \<open>
  A Python \<^verbatim>\<open>str\<close> is a sequence of Unicode code points, and the program's regular
  expressions name code points above 255, so a string is a list of code points here.
  \<open>is_space\<close> is the set for which \<^verbatim>\<open>str.isspace\<close> holds, which is also what
  \<^verbatim>\<open>\s\<close> matches in a \<^verbatim>\<open>str\<close> pattern.
\<close>

type_synonym ustr = "nat list"
type_synonym caps = "nat \<Rightarrow> ustr option"

definition is_space :: "nat \<Rightarrow> bool" where
  "is_space x = (x \<in> set [9, 10, 11, 12, 13, 28, 29, 30, 31, 32, 133, 160, 5760,
       8192, 8193, 8194, 8195, 8196, 8197, 8198, 8199, 8200, 8201, 8202,
       8232, 8233, 8239, 8287, 12288])"

section \<open>Regular expressions as the program uses them\<close>

text \<open>
  The patterns of \<^verbatim>\<open>normalize\<close> use character classes, \<^verbatim>\<open>.\<close>, \<^verbatim>\<open>^\<close>, sequence,
  alternation, greedy and lazy repetition, capturing groups and back-references.
  \<open>ms r b c s\<close> lists every way \<open>r\<close> matches a prefix of \<open>s\<close>, as the number of
  characters consumed and the captures, in the order a backtracking matcher tries them;
  \<open>b\<close> says that \<open>s\<close> starts at the beginning of the subject, \<open>c\<close> holds the captures
  made so far. The head of the list is the match \<^verbatim>\<open>re\<close> reports.
  \<open>Cls neg items\<close> is a class, negated when \<open>neg\<close>; \<open>Star greedy r\<close> is \<^verbatim>\<open>r*\<close> or
  \<^verbatim>\<open>r*?\<close>; an iteration that consumes nothing ends the repetition.
\<close>

datatype citem = Lit nat | Rng nat nat | Ws

fun in_item :: "citem \<Rightarrow> nat \<Rightarrow> bool" where
  "in_item (Lit a) x = (x = a)"
| "in_item (Rng a b) x = (a \<le> x \<and> x \<le> b)"
| "in_item Ws x = is_space x"

datatype regex =
    Cls bool "citem list"
  | Dot
  | Bol
  | Seq regex regex
  | Alt regex regex
  | Star bool regex
  | Grp nat regex
  | Ref nat

fun ms :: "regex \<Rightarrow> bool \<Rightarrow> caps \<Rightarrow> ustr \<Rightarrow> (nat \<times> caps) list" where
  "ms (Cls neg items) b c s =
     (case s of [] \<Rightarrow> [] | x # _ \<Rightarrow> if list_ex (\<lambda>i. in_item i x) items \<noteq> neg then [(1, c)] else [])"
| "ms Dot b c s = (case s of [] \<Rightarrow> [] | x # _ \<Rightarrow> if x \<noteq> 10 then [(1, c)] else [])"
| "ms Bol b c s = (if b then [(0, c)] else [])"
| "ms (Seq p q) b c s =
     concat (map (\<lambda>r. map (\<lambda>r'. (fst r + fst r', snd r'))
                           (ms q (b \<and> fst r = 0) (snd r) (drop (fst r) s)))
                 (ms p b c s))"
| "ms (Alt p q) b c s = ms p b c s @ ms q b c s"
| "ms (Star greedy p) b c s =
     (let more = concat (map (\<lambda>r. if 0 < fst r \<and> fst r \<le> length s
                                   then map (\<lambda>r'. (fst r + fst r', snd r'))
                                            (ms (Star greedy p) False (snd r) (drop (fst r) s))
                                   else [])
                             (ms p b c s))
      in if greedy then more @ [(0, c)] else (0, c) # more)"
| "ms (Grp k p) b c s = map (\<lambda>r. (fst r, (snd r)(k \<mapsto> take (fst r) s))) (ms p b c s)"
| "ms (Ref k) b c s =
     (case c k of None \<Rightarrow> []
      | Some g \<Rightarrow> if take (length g) s = g then [(length g, c)] else [])"


text \<open>
  \<^verbatim>\<open>re.sub\<close>: scan from the left; where the pattern matches, emit the expanded
  template and go on after the match; elsewhere copy one character. After an empty match
  the next character is copied. A group that did not take part expands to the empty string.
\<close>

datatype ritem = RLit ustr | RGrp nat

fun expand :: "ritem list \<Rightarrow> caps \<Rightarrow> ustr" where
  "expand [] c = []"
| "expand (RLit t # is) c = t @ expand is c"
| "expand (RGrp k # is) c = (case c k of None \<Rightarrow> [] | Some g \<Rightarrow> g) @ expand is c"

definition first_match :: "regex \<Rightarrow> bool \<Rightarrow> ustr \<Rightarrow> (nat \<times> caps) option" where
  "first_match r b s = (case ms r b Map.empty s of [] \<Rightarrow> None | m # _ \<Rightarrow> Some m)"

function re_sub_from :: "regex \<Rightarrow> ritem list \<Rightarrow> bool \<Rightarrow> ustr \<Rightarrow> ustr" where
  "re_sub_from r rep b s =
     (case first_match r b s of
        None \<Rightarrow> (case s of [] \<Rightarrow> [] | x # xs \<Rightarrow> x # re_sub_from r rep False xs)
      | Some m \<Rightarrow>
          if 0 < fst m \<and> fst m \<le> length s
          then expand rep (snd m) @ re_sub_from r rep False (drop (fst m) s)
          else (case s of [] \<Rightarrow> expand rep (snd m)
                | x # xs \<Rightarrow> expand rep (snd m) @ x # re_sub_from r rep False xs))"
  by pat_completeness auto
termination
  by (relation "measure (\<lambda>(r, rep, b, s). length s)") auto

definition re_sub :: "regex \<Rightarrow> ritem list \<Rightarrow> ustr \<Rightarrow> ustr" where
  "re_sub r rep s = re_sub_from r rep True s"

section \<open>normalize\<close>

text \<open>
  \<^verbatim>\<open>normalize\<close> is a fixed list of \<^verbatim>\<open>re.sub\<close> calls, the unconditional append of
  U+3002 (the ideographic full stop) after the first seventeen, and fifteen more. The rules
  are listed in the order of the source; \<open>rep_run x\<close> is the shape \<^verbatim>\<open>x(\s*x)+\<close>.
  Code points: 12289 and 12290 are the ideographic comma and full stop, 65281 and 65311 the
  full-width exclamation and question marks, 33 and 63 their ASCII forms, 65374 and 12316
  the wave dashes, 12540 the long-vowel mark, 31505, 27875 and 27735 the laugh, cry and
  sweat ideographs, 12387 and 12483 the small tsu in hiragana and katakana.
\<close>

definition ch :: "nat \<Rightarrow> regex" where "ch x = Cls False [Lit x]"
definition sp :: regex where "sp = Cls False [Ws]"
definition Plus :: "bool \<Rightarrow> regex \<Rightarrow> regex" where "Plus g r = Seq r (Star g r)"
definition rep_run :: "regex \<Rightarrow> regex" where
  "rep_run x = Seq x (Plus True (Grp 1 (Seq (Star True sp) x)))"

definition rules_a :: "(regex \<times> ritem list) list" where
  "rules_a =
   [(Seq (Cls False [Lit 40, Lit 91])
         (Seq (Star False (Cls True [Lit 31505, Lit 27875, Lit 27735])) (Cls False [Lit 41, Lit 93])),
     [RLit [32]]),
    (Cls True [Rng 12353 12435, Rng 12449 12534, Rng 19968 40864, Lit 12293, Lit 12540,
               Lit 65374, Lit 12316, Lit 12289, Lit 12290, Lit 33, Lit 63, Lit 44, Lit 46],
     [RLit [32]]),
    (ch 44, [RLit [12289]]),
    (ch 46, [RLit [12290]]),
    (ch 12316, [RLit [65374]]),
    (Alt (Seq (ch 12289) (Plus True (Grp 1 (Seq (Star True sp) (ch 12289)))))
         (Seq (ch 12290) (Plus True (Grp 2 (Seq (Star True sp) (ch 12290))))),
     [RLit [46, 46, 46]]),
    (Plus True (ch 33), [RLit [65281]]),
    (rep_run (ch 65281), [RLit [65281]]),
    (Plus True (ch 63), [RLit [65311]]),
    (rep_run (ch 65311), [RLit [65311]]),
    (rep_run (ch 65374), [RLit [65374]]),
    (rep_run (ch 12540), [RLit [12540]]),
    (rep_run (ch 12387), [RLit [12387]]),
    (rep_run (ch 12483), [RLit [12483]]),
    (rep_run (ch 31505), [RLit [31505]]),
    (rep_run (ch 27875), [RLit [27875]]),
    (rep_run (ch 27735), [RLit [27735]])]"

definition rules_b :: "(regex \<times> ritem list) list" where
  "rules_b =
   [(rep_run (Cls False [Lit 12289, Lit 12290]), [RLit [12290]]),
    (rep_run (Cls False [Lit 12290, Lit 12289, Lit 65281]), [RLit [65281]]),
    (rep_run (Cls False [Lit 12290, Lit 12289, Lit 65311]), [RLit [65311]]),
    (Seq (Grp 1 (Alt (Seq (Plus True (Grp 2 (Seq (ch 65281) (Star True sp)))) (ch 65311))
                     (Seq (Plus True (Grp 3 (Seq (ch 65311) (Star True sp)))) (ch 65281))))
         (Star True (Grp 4 (Seq (Star True sp) (Cls False [Lit 65281, Lit 65311])))),
     [RLit [33, 63]]),
    (Seq (ch 12289) (Seq (Star True sp) (Seq (Grp 1 (Cls False [Lit 31505, Lit 27875, Lit 27735]))
         (Seq (Star True sp) (ch 12290)))),
     [RLit [32], RGrp 1, RLit [12290]]),
    (Seq (Grp 1 (Alt (ch 12290) (Alt (ch 65281) (Alt (ch 65311) (Seq (ch 33) (ch 63))))))
         (Seq (Star True sp) (Seq (Grp 2 (Cls False [Lit 31505, Lit 27875, Lit 27735]))
         (Seq (Star True sp) (ch 12290)))),
     [RLit [32], RGrp 2, RGrp 1]),
    (ch 12289, [RLit [32, 12289, 32]]),
    (ch 12290, [RLit [32, 12290, 10]]),
    (Plus True (Grp 1 (Seq (ch 46) (Star True sp))), [RLit [32, 46, 46, 46, 32]]),
    (ch 65281, [RLit [32, 65281, 10]]),
    (ch 65311, [RLit [32, 65311, 10]]),
    (Seq (ch 33) (ch 63), [RLit [32, 33, 63, 10]]),
    (Seq (ch 10) (Plus True (Grp 1 (Seq (Star True sp) (Cls False [Lit 65374, Lit 12540])))),
     [RLit [10]]),
    (Seq Bol (Plus True (Grp 1 (Seq (Star True (Cls False [Ws, Lit 10]))
         (Plus True (Cls False [Lit 12290, Lit 12289, Lit 65281, Lit 65311, Lit 33, Lit 63,
                                Lit 12540, Lit 65374]))))),
     []),
    (Seq (Grp 1 (Plus False Dot)) (Seq (Ref 1) (Seq (Ref 1) (Seq (Ref 1) (Star True (Ref 1))))),
     [RGrp 1, RGrp 1, RGrp 1])]"

definition apply_rules :: "(regex \<times> ritem list) list \<Rightarrow> ustr \<Rightarrow> ustr" where
  "apply_rules rules line = fold (\<lambda>(r, rep) l. re_sub r rep l) rules line"

definition normalize :: "ustr \<Rightarrow> ustr" where
  "normalize line = apply_rules rules_b (apply_rules rules_a line @ [12290])"


section \<open>Python values and failures\<close>

text \<open>
  Every exception the modelled code can raise is a value. \<open>TweepError\<close> stands for any
  failure of the bulk lookup call, \<open>OSError\<close> for a file that cannot be opened. An
  \<open>IndexError\<close> carries the list whose index was out of range: the queue, the list of
  collected parent ids, or a chain.
\<close>

datatype place = OfQueue | OfIds | OfChain

datatype exn =
    TypeError | IndexError place | ValueError | KeyError | RuntimeError | OSError
  | TweepError | NameError | KeyboardInterrupt | SystemExit int

text \<open>Indexing a list at \<open>i\<close>, at \<^verbatim>\<open>-1\<close> and at \<^verbatim>\<open>-2\<close> (of a chain); out of range raises.\<close>

definition py_nth :: "place \<Rightarrow> 'a list \<Rightarrow> nat \<Rightarrow> exn + 'a" where
  "py_nth pl xs i = (if i < length xs then Inr (xs ! i) else Inl (IndexError pl))"

definition py_last :: "'a list \<Rightarrow> exn + 'a" where
  "py_last xs = (if xs = [] then Inl (IndexError OfChain) else Inr (xs ! (length xs - 1)))"

definition py_last2 :: "'a list \<Rightarrow> exn + 'a" where
  "py_last2 xs = (if length xs < 2 then Inl (IndexError OfChain) else Inr (xs ! (length xs - 2)))"

text \<open>\<^verbatim>\<open>str(n)\<close> for an integer, and \<^verbatim>\<open>str(None)\<close>.\<close>

fun digits :: "nat \<Rightarrow> ustr" where
  "digits n = (if n < 10 then [48 + n] else digits (n div 10) @ [48 + n mod 10])"

definition py_str :: "int \<Rightarrow> ustr" where
  "py_str i = (if i < 0 then 45 # digits (nat (- i)) else digits (nat i))"

definition py_str_opt :: "int option \<Rightarrow> ustr" where
  "py_str_opt v = (case v of None \<Rightarrow> [78, 111, 110, 101] | Some i \<Rightarrow> py_str i)"

text \<open>\<^verbatim>\<open>' '.join(ws)\<close>, \<^verbatim>\<open>s.strip()\<close>, \<^verbatim>\<open>s.split()\<close> and \<^verbatim>\<open>f.readline()\<close>
  (the line with its newline, and what is left of the file).\<close>

fun join :: "ustr list \<Rightarrow> ustr" where
  "join [] = []"
| "join [w] = w"
| "join (w # ws) = w @ 32 # join ws"

definition strip :: "ustr \<Rightarrow> ustr" where
  "strip s = rev (dropWhile is_space (rev (dropWhile is_space s)))"

fun split_acc :: "ustr \<Rightarrow> ustr \<Rightarrow> ustr list" where
  "split_acc cur [] = (if cur = [] then [] else [cur])"
| "split_acc cur (x # xs) =
     (if is_space x then (if cur = [] then split_acc [] xs else cur # split_acc [] xs)
      else split_acc (cur @ [x]) xs)"

definition split :: "ustr \<Rightarrow> ustr list" where
  "split s = split_acc [] s"

fun readline :: "ustr \<Rightarrow> ustr \<times> ustr" where
  "readline [] = ([], [])"
| "readline (x # xs) =
     (if x = 10 then ([10], xs) else (x # fst (readline xs), snd (readline xs)))"

text \<open>
  \<^verbatim>\<open>int(s)\<close> on a string: surrounding whitespace is dropped, one sign is allowed, and
  the digits may be grouped by single underscores. Python reads the decimal digits of
  every script; \<open>dec\<close> is the table of the Unicode database that gives the value of a
  decimal digit outside ASCII, and is handed in.
\<close>

fun split_on :: "nat \<Rightarrow> ustr \<Rightarrow> ustr \<Rightarrow> ustr list" where
  "split_on d cur [] = [cur]"
| "split_on d cur (x # xs) = (if x = d then cur # split_on d [] xs else split_on d (cur @ [x]) xs)"

definition digit_of :: "(nat \<Rightarrow> nat option) \<Rightarrow> nat \<Rightarrow> nat option" where
  "digit_of dec x = (if 48 \<le> x \<and> x \<le> 57 then Some (x - 48) else if x < 128 then None else dec x)"

definition digits_val :: "(nat \<Rightarrow> nat option) \<Rightarrow> ustr \<Rightarrow> nat" where
  "digits_val dec ds = foldl (\<lambda>acc x. 10 * acc + the (digit_of dec x)) 0 ds"

definition parse_nat :: "(nat \<Rightarrow> nat option) \<Rightarrow> ustr \<Rightarrow> exn + int" where
  "parse_nat dec r =
     (let gs = split_on 95 [] r
      in if list_all (\<lambda>g. g \<noteq> [] \<and> list_all (\<lambda>x. digit_of dec x \<noteq> None) g) gs
         then Inr (int (digits_val dec (concat gs))) else Inl ValueError)"

definition py_int :: "(nat \<Rightarrow> nat option) \<Rightarrow> ustr \<Rightarrow> exn + int" where
  "py_int dec s =
     (case strip s of
        [] \<Rightarrow> Inl ValueError
      | x # r \<Rightarrow>
          if x = 45 then (case parse_nat dec r of Inl e \<Rightarrow> Inl e | Inr v \<Rightarrow> Inr (- v))
          else if x = 43 then parse_nat dec r
          else parse_nat dec (x # r))"

fun map_int :: "(nat \<Rightarrow> nat option) \<Rightarrow> ustr list \<Rightarrow> exn + int list" where
  "map_int dec [] = Inr []"
| "map_int dec (t # ts) =
     (case py_int dec t of Inl e \<Rightarrow> Inl e
      | Inr v \<Rightarrow> (case map_int dec ts of Inl e \<Rightarrow> Inl e | Inr vs \<Rightarrow> Inr (v # vs)))"

section \<open>The data of the listener\<close>

text \<open>
  A tweet is the four-element list \<^verbatim>\<open>[in_reply_to_status_id, user id, text, id]\<close>. Its
  third element starts as the text and is overwritten by the word list that \<^verbatim>\<open>parse\<close>
  and \<^verbatim>\<open>dump_filter\<close> return, so it is either of the two. A dialog is a list of
  \<^verbatim>\<open>[tweet, parts]\<close> entries, the newest message first.
\<close>

datatype text_val = Str ustr | Toks "ustr list"

record tweet =
  tw_reply_to :: "int option"
  tw_user :: int
  tw_text :: text_val
  tw_id :: int

type_synonym entry = "tweet \<times> ustr list"
type_synonym dialog = "entry list"

text \<open>A message of the stream, and a status returned by the bulk lookup.\<close>

record raw_status =
  raw_reply_to :: "int option"
  raw_user_id :: int
  raw_text :: ustr
  raw_id :: int

record status =
  st_id_str :: ustr
  st_reply_to :: "int option"
  st_user_id :: int
  st_text :: ustr
  st_id :: int

text \<open>
  What the program is handed from outside: Unicode normalisation and the decimal digits
  of the Unicode database, the morphological analyser behind \<^verbatim>\<open>parse\<close>, the bulk
  lookup (its answer may depend on how many calls came before, and \<open>None\<close> is a call
  that fails), the order in which a set
  is iterated, and the file system: \<open>sink_opens ev k s\<close> tells whether sink \<open>s\<close> can be
  opened for appending in the call of \<^verbatim>\<open>dump_data\<close> that \<open>k\<close> calls came before. \<^verbatim>\<open>del_username\<close> and the three
  searches of \<^verbatim>\<open>check\<close> are regular expressions over Unicode word classes; they are
  taken as given functions of a string, and what \<^verbatim>\<open>check\<close> does with a value that is
  not a string is modelled where it is called.
\<close>

datatype sink = Prompt | Response | Part

record env =
  nfkc :: "ustr \<Rightarrow> ustr"
  decimal :: "nat \<Rightarrow> nat option"
  del_username :: "ustr \<Rightarrow> ustr"
  check_str :: "ustr \<Rightarrow> bool"
  parse :: "ustr \<Rightarrow> ustr list \<times> ustr list"
  statuses_lookup :: "nat \<Rightarrow> int option list \<Rightarrow> status list option"
  set_order :: "int set \<Rightarrow> int list"
  sink_opens :: "nat \<Rightarrow> sink \<Rightarrow> bool"

text \<open>
  A file: whether it exists, whether opening it for reading or for writing succeeds, and
  its text as Python reads it.
\<close>

record cp_file =
  f_exists :: bool
  f_readable :: bool
  f_writable :: bool
  f_text :: ustr

text \<open>
  The listener with the files it writes. The three sinks are kept as the list of lines
  written; \<open>lookup_log\<close> is the list of requests sent to the lookup service and
  \<open>dump_log\<close> the list of dialogs handed to \<^verbatim>\<open>dump_data\<close>, in chronological order;
  the two logs are observations, and only their lengths are used, to count the calls.
\<close>

record listener =
  need :: "(ustr \<times> bool) list"
  needless :: "(ustr \<times> bool) list"
  dump :: "(ustr \<times> bool) list"
  length_min :: int
  length_max :: int
  output_part :: bool
  tweet_ids :: "int set"
  queue :: "dialog list"
  BATCH_SIZE :: nat
  dump_count :: int
  tweet_file :: "ustr list"
  reply_file :: "ustr list"
  tweet_part_file :: "ustr list"
  check_point :: cp_file
  lookup_log :: "int option list list"
  dump_log :: "dialog list"

datatype outcome = Return bool listener | Raise exn listener

fun final :: "outcome \<Rightarrow> listener" where
  "final (Return ok st) = st"
| "final (Raise e st) = st"

section \<open>Filters\<close>

definition need_check :: "listener \<Rightarrow> ustr list \<Rightarrow> bool" where
  "need_check st parts = list_all (\<lambda>(part, flag). \<not> (flag \<and> part \<notin> set parts)) (need st)"

definition needless_check :: "listener \<Rightarrow> ustr list \<Rightarrow> bool" where
  "needless_check st parts = list_all (\<lambda>part. map_of (needless st) part \<noteq> Some True) parts"

definition dump_filter :: "listener \<Rightarrow> ustr list \<Rightarrow> ustr list \<Rightarrow> ustr list \<times> ustr list" where
  "dump_filter st words parts =
     (let kept = filter (\<lambda>(word, part). map_of (dump st) part = Some True) (zip words parts)
      in (map fst kept, map snd kept))"

definition length_check :: "listener \<Rightarrow> ustr list \<Rightarrow> bool" where
  "length_check st words = (length_min st \<le> int (length words) \<and> int (length words) \<le> length_max st)"

definition talker_check :: "listener \<Rightarrow> int \<Rightarrow> nat \<Rightarrow> exn + bool" where
  "talker_check st talker idx =
     (case py_nth OfQueue (queue st) idx of
        Inl e \<Rightarrow> Inl e
      | Inr d \<Rightarrow>
          (case py_last d of
             Inl e \<Rightarrow> Inl e
           | Inr e1 \<Rightarrow>
               if talker \<noteq> tw_user (fst e1)
               then (if length d = 1 then Inr True
                     else (case py_last2 d of
                             Inl e \<Rightarrow> Inl e
                           | Inr e2 \<Rightarrow> Inr (talker = tw_user (fst e2))))
               else Inr False))"

section \<open>dump\_data\<close>

text \<open>
  \<^verbatim>\<open>' '.join\<close> on the third element of a tweet: the words when it is a word list; on a
  string Python would join its characters.
\<close>

definition join_text :: "text_val \<Rightarrow> ustr" where
  "join_text t = (case t of Toks ws \<Rightarrow> join ws | Str s \<Rightarrow> join (map (\<lambda>x. [x]) s))"

text \<open>
  The dialog is reversed in place, so the reversed list is returned for the caller's
  queue slot, also when the call raises. The prompt and the response sink are opened
  together and written line by line; they are closed before the part sink is opened, and
  \<^verbatim>\<open>dump_count\<close> is increased last. An \<^verbatim>\<open>open\<close> that fails raises \<^verbatim>\<open>OSError\<close> at
  that point, with everything written before it in place. There is no path on which the
  function returns \<^verbatim>\<open>False\<close>.
\<close>

definition dump_data :: "env \<Rightarrow> listener \<Rightarrow> dialog \<Rightarrow> dialog \<times> outcome" where
  "dump_data ev st dialog =
     (let d = rev dialog;
          tweets = map (\<lambda>e. (tw_text (fst e), snd e)) d;
          n = length tweets - 1;
          k = length (dump_log st);
          st0 = st\<lparr>dump_log := dump_log st @ [d]\<rparr>
      in if \<not> sink_opens ev k Prompt \<or> \<not> sink_opens ev k Response then (d, Raise OSError st0)
         else
           let st1 = st0\<lparr>tweet_file := tweet_file st0
                                 @ map (\<lambda>i. join_text (fst (tweets ! i)) @ [10]) [0..<n],
                         reply_file := reply_file st0
                                 @ map (\<lambda>i. join_text (fst (tweets ! (i + 1))) @ [10]) [0..<n]\<rparr>
           in if output_part st1
              then (if \<not> sink_opens ev k Part then (d, Raise OSError st1)
                    else (d, Return True
                               (st1\<lparr>tweet_part_file := tweet_part_file st1
                                        @ map (\<lambda>i. join (snd (tweets ! i)) @ [10]) [0..<n],
                                     dump_count := dump_count st1 + (int (length tweets) - 1)\<rparr>)))
              else (d, Return True (st1\<lparr>dump_count := dump_count st1 + (int (length tweets) - 1)\<rparr>)))"

section \<open>lookup\<close>

text \<open>
  The dictionary of the looked-up tweets maps \<^verbatim>\<open>id_str\<close> to a tweet. Its values are
  mutable lists shared by every chain that asks for the same id, so the dictionary is
  threaded through the loop and updated where the source assigns to \<^verbatim>\<open>tweet[2]\<close>.
  The entry appended to a chain is a copy: once the text of a tweet is a word list no
  statement assigns to it again, because \<^verbatim>\<open>check\<close> raises first.
\<close>

type_synonym replys_dic = "ustr \<Rightarrow> tweet option"
type_synonym loop_state = "replys_dic \<times> listener \<times> nat list"

datatype flow = Next loop_state | Ret bool listener | Exc exn listener

definition dellist :: "'a list \<Rightarrow> nat list \<Rightarrow> 'a list" where
  "dellist items indices = map snd (filter (\<lambda>(idx, item). idx \<notin> set indices) (enumerate 0 items))"

fun collect_ids :: "dialog list \<Rightarrow> exn + int option list" where
  "collect_ids [] = Inr []"
| "collect_ids (d # ds) =
     (case py_last d of
        Inl e \<Rightarrow> Inl e
      | Inr en \<Rightarrow> (case collect_ids ds of Inl e \<Rightarrow> Inl e | Inr ids \<Rightarrow> Inr (tw_reply_to (fst en) # ids)))"

text \<open>The end of the loop body: \<^verbatim>\<open>if interrupte: ...\<close>.\<close>

definition conclude :: "env \<Rightarrow> bool \<Rightarrow> replys_dic \<Rightarrow> listener \<Rightarrow> nat list \<Rightarrow> nat \<Rightarrow> flow" where
  "conclude ev interrupte dic st dump_idxs idx =
     (if interrupte
      then (case py_nth OfQueue (queue st) idx of
              Inl e \<Rightarrow> Exc e st
            | Inr d \<Rightarrow>
                if 2 \<le> length d
                then (case dump_data ev st d of
                        (d', Raise e st') \<Rightarrow> Exc e (st'\<lparr>queue := (queue st')[idx := d']\<rparr>)
                      | (d', Return ok st') \<Rightarrow>
                          let st'' = st'\<lparr>queue := (queue st')[idx := d']\<rparr>
                          in if \<not> ok then Ret False st'' else Next (dic, st'', dump_idxs @ [idx]))
                else Next (dic, st, dump_idxs @ [idx]))
      else Next (dic, st, dump_idxs))"

definition lookup_body :: "env \<Rightarrow> int option list \<Rightarrow> nat \<Rightarrow> loop_state \<Rightarrow> flow" where
  "lookup_body ev ids idx acc =
     (case acc of (dic, st, dump_idxs) \<Rightarrow>
      (case py_nth OfIds ids idx of
         Inl e \<Rightarrow> Exc e st
       | Inr pid \<Rightarrow>
           (case dic (py_str_opt pid) of
              None \<Rightarrow> conclude ev True dic st dump_idxs idx
            | Some tweet \<Rightarrow>
                (case tw_text tweet of
                   Toks ws \<Rightarrow> Exc TypeError st
                 | Str s \<Rightarrow>
                     if \<not> check_str ev s then conclude ev True dic st dump_idxs idx
                     else
                       (case talker_check st (tw_user tweet) idx of
                          Inl e \<Rightarrow> Exc e st
                        | Inr False \<Rightarrow> conclude ev True dic st dump_idxs idx
                        | Inr True \<Rightarrow>
                            (case parse ev (normalize s) of
                               (words, parts) \<Rightarrow>
                                 let dic1 = dic(py_str_opt pid \<mapsto> tweet\<lparr>tw_text := Toks words\<rparr>)
                                 in if need_check st parts \<and> needless_check st parts
                                    then
                                      (case dump_filter st words parts of
                                         (words', parts') \<Rightarrow>
                                           let tweet' = tweet\<lparr>tw_text := Toks words'\<rparr>;
                                               dic2 = dic1(py_str_opt pid \<mapsto> tweet')
                                           in if length_check st words'
                                              then
                                                (case py_nth OfQueue (queue st) idx of
                                                   Inl e \<Rightarrow> Exc e st
                                                 | Inr d \<Rightarrow>
                                                     let st1 = st\<lparr>queue := (queue st)[idx := d @ [(tweet', parts')]]\<rparr>;
                                                         interrupte = \<not> (tw_reply_to tweet' \<noteq> None
                                                                          \<and> tw_id tweet' \<notin> tweet_ids st1);
                                                         st2 = st1\<lparr>tweet_ids := insert (tw_id tweet') (tweet_ids st1)\<rparr>
                                                     in conclude ev interrupte dic2 st2 dump_idxs idx)
                                              else conclude ev True dic2 st dump_idxs idx)
                                    else conclude ev True dic1 st dump_idxs idx))))))"

fun lookup_loop :: "env \<Rightarrow> int option list \<Rightarrow> nat list \<Rightarrow> loop_state \<Rightarrow> flow" where
  "lookup_loop ev ids [] acc = Next acc"
| "lookup_loop ev ids (idx # rest) acc =
     (case lookup_body ev ids idx acc of
        Next acc' \<Rightarrow> lookup_loop ev ids rest acc'
      | Ret ok st \<Rightarrow> Ret ok st
      | Exc e st \<Rightarrow> Exc e st)"

definition mk_tweet :: "env \<Rightarrow> status \<Rightarrow> tweet" where
  "mk_tweet ev reply =
     \<lparr>tw_reply_to = st_reply_to reply, tw_user = st_user_id reply,
      tw_text = Str (del_username ev (nfkc ev (st_text reply))), tw_id = st_id reply\<rparr>"

definition mk_dic :: "env \<Rightarrow> status list \<Rightarrow> replys_dic" where
  "mk_dic ev replys = fold (\<lambda>reply m. m(st_id_str reply \<mapsto> mk_tweet ev reply)) replys Map.empty"

definition lookup :: "env \<Rightarrow> listener \<Rightarrow> outcome" where
  "lookup ev st =
     (case collect_ids (queue st) of
        Inl e \<Rightarrow> Raise e st
      | Inr ids \<Rightarrow>
          let st0 = st\<lparr>lookup_log := lookup_log st @ [ids]\<rparr>
          in (case statuses_lookup ev (length (lookup_log st)) ids of
                None \<Rightarrow> Raise TweepError st0
              | Some replys \<Rightarrow>
                  (case lookup_loop ev ids [0..<BATCH_SIZE st0] (mk_dic ev replys, st0, []) of
                     Exc e st' \<Rightarrow> Raise e st'
                   | Ret ok st' \<Rightarrow> Return ok st'
                   | Next (dic, st', dump_idxs) \<Rightarrow>
                       Return True (st'\<lparr>queue := dellist (queue st') dump_idxs\<rparr>))))"

section \<open>on\_status\<close>

text \<open>
  The \<^verbatim>\<open>while\<close> loop calls \<^verbatim>\<open>lookup\<close> as long as the queue holds \<^verbatim>\<open>BATCH_SIZE\<close>
  chains. A lookup service that keeps answering with fresh parents keeps every chain open,
  so the loop need not end: not returning is the value \<open>None\<close>.
\<close>

partial_function (option) lookup_while :: "env \<Rightarrow> listener \<Rightarrow> outcome option" where
  "lookup_while ev st =
     (if length (queue st) = BATCH_SIZE st
      then (case lookup ev st of
              Raise e st' \<Rightarrow> Some (Raise e st')
            | Return ok st' \<Rightarrow> if \<not> ok then Some (Return False st') else lookup_while ev st')
      else Some (Return True st))"

definition admit :: "listener \<Rightarrow> entry \<Rightarrow> listener" where
  "admit st en = st\<lparr>queue := queue st @ [[en]], tweet_ids := insert (tw_id (fst en)) (tweet_ids st)\<rparr>"

definition on_status :: "env \<Rightarrow> raw_status \<Rightarrow> listener \<Rightarrow> outcome option" where
  "on_status ev raw st =
     (case raw_reply_to raw of
        None \<Rightarrow> Some (Return True st)
      | Some parent \<Rightarrow>
          let s = del_username ev (nfkc ev (raw_text raw))
          in if check_str ev s
             then (case parse ev (normalize s) of
                     (words, parts) \<Rightarrow>
                       if need_check st parts \<and> needless_check st parts
                       then (case dump_filter st words parts of
                               (words', parts') \<Rightarrow>
                                 if length_check st words'
                                 then lookup_while ev
                                        (admit st (\<lparr>tw_reply_to = Some parent, tw_user = raw_user_id raw,
                                                    tw_text = Toks words', tw_id = raw_id raw\<rparr>, parts'))
                                 else Some (Return True st))
                       else Some (Return True st))
             else Some (Return True st))"

section \<open>A run of the stream\<close>

text \<open>
  The stream hands the messages to \<^verbatim>\<open>on_data\<close> one at a time, and stops when it
  returns \<^verbatim>\<open>False\<close> or raises.
\<close>

fun run :: "env \<Rightarrow> raw_status list \<Rightarrow> listener \<Rightarrow> outcome option" where
  "run ev [] st = Some (Return True st)"
| "run ev (raw # raws) st =
     (case on_status ev raw st of
        None \<Rightarrow> None
      | Some (Raise e st') \<Rightarrow> Some (Raise e st')
      | Some (Return ok st') \<Rightarrow> if ok then run ev raws st' else Some (Return False st'))"

definition author :: "entry \<Rightarrow> int" where
  "author en = tw_user (fst en)"

section \<open>The check point\<close>

definition save_check_point :: "env \<Rightarrow> listener \<Rightarrow> listener" where
  "save_check_point ev st =
     (let f = check_point st
      in if \<not> f_writable f then st
         else st\<lparr>check_point :=
                   f\<lparr>f_exists := True,
                     f_text := py_str (dump_count st) @ [10]
                               @ join (map py_str (set_order ev (tweet_ids st)))\<rparr>\<rparr>)"

text \<open>
  Only \<^verbatim>\<open>open\<close> is inside the \<^verbatim>\<open>try\<close>; the two \<^verbatim>\<open>int\<close> conversions are in its
  \<^verbatim>\<open>else\<close> branch, so their \<^verbatim>\<open>ValueError\<close> leaves the function.
\<close>

definition load_check_point :: "env \<Rightarrow> listener \<Rightarrow> exn \<times> listener + listener" where
  "load_check_point ev st =
     (let st0 = st\<lparr>tweet_ids := {}, dump_count := 0\<rparr>; f = check_point st
      in if f_exists f
         then (if \<not> f_readable f then Inr st0
               else (case py_int (decimal ev) (strip (fst (readline (f_text f)))) of
                       Inl e \<Rightarrow> Inl (e, st0)
                     | Inr n \<Rightarrow>
                         let st1 = st0\<lparr>dump_count := n\<rparr>
                         in (case map_int (decimal ev) (split (strip (fst (readline (snd (readline (f_text f))))))) of
                               Inl e \<Rightarrow> Inl (e, st1)
                             | Inr ids \<Rightarrow> Inr (st1\<lparr>tweet_ids := set ids\<rparr>))))
         else Inr st0)"

section \<open>The constructor and the reconnect loop\<close>

record config =
  cfg_need :: "(ustr \<times> bool) list"
  cfg_needless :: "(ustr \<times> bool) list"
  cfg_dump :: "(ustr \<times> bool) list"
  cfg_length_min :: int
  cfg_length_max :: int
  cfg_output_part :: bool

text \<open>
  The configuration file is missing, or cannot be loaded, or loads as something that is
  not a mapping, or as a mapping without one of the keys the constructor reads, or holds a
  configuration. The look-ups of the keys are outside every \<^verbatim>\<open>try\<close>, and so is the
  construction of the tagger; the authentication set-up is inside one.
\<close>

datatype config_file = NoConfig | BadConfig | NotAMapping | MissingKey | GoodConfig config

record world =
  w_env :: env
  w_config :: config_file
  w_auth_ok :: bool
  w_tagger_ok :: bool
  w_check_point :: cp_file
  w_tweet_file :: "ustr list"
  w_reply_file :: "ustr list"
  w_tweet_part_file :: "ustr list"

definition init :: "world \<Rightarrow> exn + listener" where
  "init w =
     (case w_config w of
        NoConfig \<Rightarrow> Inl (SystemExit 1)
      | BadConfig \<Rightarrow> Inl (SystemExit 1)
      | NotAMapping \<Rightarrow> Inl TypeError
      | MissingKey \<Rightarrow> Inl KeyError
      | GoodConfig c \<Rightarrow>
          if \<not> w_auth_ok w then Inl (SystemExit 1)
          else if \<not> w_tagger_ok w then Inl RuntimeError
          else (case load_check_point (w_env w)
                       \<lparr>need = cfg_need c, needless = cfg_needless c, dump = cfg_dump c,
                        length_min = cfg_length_min c, length_max = cfg_length_max c,
                        output_part = cfg_output_part c, tweet_ids = {}, queue = [],
                        BATCH_SIZE = 100, dump_count = 0,
                        tweet_file = w_tweet_file w, reply_file = w_reply_file w,
                        tweet_part_file = w_tweet_part_file w, check_point = w_check_point w,
                        lookup_log = [], dump_log = []\<rparr> of
                  Inl (e, st) \<Rightarrow> Inl e
                | Inr st \<Rightarrow> Inr st))"

text \<open>
  One turn of \<^verbatim>\<open>while True\<close> in \<^verbatim>\<open>twitter\<close>. The body builds the listener and runs
  the stream; the stream session ends by returning or by raising. The first handler
  takes \<^verbatim>\<open>KeyboardInterrupt\<close> and uses the name \<^verbatim>\<open>listener\<close>, which is unbound when no
  constructor call has returned yet; the second is a bare \<^verbatim>\<open>except\<close>, which takes every
  other exception, \<^verbatim>\<open>SystemExit\<close> included. Leaving the loop ends the process with
  status 0, an exception nobody catches with status 1. The delay is a multiple of a
  quarter of a second, which binary floating point holds exactly.
\<close>

datatype session_end = Stopped | Failed exn

record loop =
  tcpip_delay :: rat
  listener_bound :: bool

datatype step = Continue loop | Exit int

definition handler :: "exn \<Rightarrow> loop \<Rightarrow> step" where
  "handler e lp =
     (if e = KeyboardInterrupt
      then (if listener_bound lp then Exit 0 else Exit 1)
      else Continue (lp\<lparr>tcpip_delay := min (tcpip_delay lp + 1 / 4) 16\<rparr>))"

definition twitter_iter :: "world \<Rightarrow> session_end \<Rightarrow> loop \<Rightarrow> step" where
  "twitter_iter w ending lp =
     (case init w of
        Inl e \<Rightarrow> handler e lp
      | Inr st \<Rightarrow>
          (case ending of
             Stopped \<Rightarrow> Continue (lp\<lparr>listener_bound := True\<rparr>)
           | Failed e \<Rightarrow> handler e (lp\<lparr>listener_bound := True\<rparr>)))"

fun twitter :: "(world \<times> session_end) list \<Rightarrow> loop \<Rightarrow> step" where
  "twitter [] lp = Continue lp"
| "twitter ((w, ending) # rest) lp =
     (case twitter_iter w ending lp of Exit code \<Rightarrow> Exit code | Continue lp' \<Rightarrow> twitter rest lp')"

section \<open>Notions used in the statements and proofs\<close>

text \<open>
  \<open>alt2 us\<close>: neighbours in \<open>us\<close> differ and every element equals the one two places
  before it. \<open>flow_all P f\<close>: the listener carried by the loop result \<open>f\<close> satisfies \<open>P\<close>.
  \<open>dumped ev st idx\<close> is the listener after \<^verbatim>\<open>dump_data(self.queue[idx])\<close> returned
  or raised, \<open>extended st idx en\<close>
  the listener after entry \<open>en\<close> was appended to chain \<open>idx\<close> and its id recorded.
\<close>

definition alt2 :: "int list \<Rightarrow> bool" where
  "alt2 us = ((\<forall>i. Suc i < length us \<longrightarrow> us ! i \<noteq> us ! Suc i)
             \<and> (\<forall>i. Suc (Suc i) < length us \<longrightarrow> us ! Suc (Suc i) = us ! i))"

definition flow_all :: "(listener \<Rightarrow> bool) \<Rightarrow> flow \<Rightarrow> bool" where
  "flow_all P f = (case f of Next (dic, st, di) \<Rightarrow> P st | Ret ok st \<Rightarrow> P st | Exc e st \<Rightarrow> P st)"

definition dumped :: "env \<Rightarrow> listener \<Rightarrow> nat \<Rightarrow> listener" where
  "dumped ev st idx =
     (case dump_data ev st (queue st ! idx) of
        (d', r) \<Rightarrow> (final r)\<lparr>queue := (queue (final r))[idx := d']\<rparr>)"

definition extended :: "listener \<Rightarrow> nat \<Rightarrow> entry \<Rightarrow> listener" where
  "extended st idx en =
     st\<lparr>queue := (queue st)[idx := queue st ! idx @ [en]],
        tweet_ids := insert (tw_id (fst en)) (tweet_ids st)\<rparr>"

definition chains_ok :: "listener \<Rightarrow> bool" where
  "chains_ok st = (\<forall>d \<in> set (queue st). d \<noteq> [])"

definition alt_inv :: "listener \<Rightarrow> bool" where
  "alt_inv st = ((\<forall>d \<in> set (queue st). d \<noteq> [] \<and> alt2 (map author d))
                \<and> (\<forall>d \<in> set (dump_log st). alt2 (map author d)))"




text \<open>
  \<open>accepts ev st raw\<close>: the message passes every test of \<^verbatim>\<open>on_status\<close> and is queued;
  \<open>entry_of ev st raw\<close> is the entry queued for it. \<open>cap_inv b l st\<close>: the batch size is \<open>b\<close>,
  no chain is empty, the queue holds at most \<open>b\<close> chains, and the requests sent to the
  lookup service after the first \<open>l\<close> all carry \<open>b\<close> ids.
\<close>

definition accepts :: "env \<Rightarrow> listener \<Rightarrow> raw_status \<Rightarrow> bool" where
  "accepts ev st raw =
     (raw_reply_to raw \<noteq> None
      \<and> (let s = del_username ev (nfkc ev (raw_text raw))
         in check_str ev s
            \<and> (case parse ev (normalize s) of
                 (words, parts) \<Rightarrow>
                   need_check st parts \<and> needless_check st parts
                   \<and> length_check st (fst (dump_filter st words parts)))))"

definition entry_of :: "env \<Rightarrow> listener \<Rightarrow> raw_status \<Rightarrow> entry" where
  "entry_of ev st raw =
     (case parse ev (normalize (del_username ev (nfkc ev (raw_text raw)))) of
        (words, parts) \<Rightarrow>
          (\<lparr>tw_reply_to = raw_reply_to raw, tw_user = raw_user_id raw,
            tw_text = Toks (fst (dump_filter st words parts)), tw_id = raw_id raw\<rparr>,
           snd (dump_filter st words parts)))"

definition cap_inv :: "nat \<Rightarrow> int option list list \<Rightarrow> listener \<Rightarrow> bool" where
  "cap_inv b l st =
     (BATCH_SIZE st = b \<and> chains_ok st \<and> length (queue st) \<le> b
      \<and> (\<exists>reqs. lookup_log st = l @ reqs \<and> list_all (\<lambda>r. length r = b) reqs))"
section \<open>Sample data\<close>

text \<open>
  Concrete inputs at which the theorems below are instantiated: a configuration that keeps
  the words tagged \<^verbatim>\<open>n\<close> and asks for one to ten of them, an analyser that returns its
  input as a single word tagged \<^verbatim>\<open>n\<close>, and a listener with batch size \<open>b\<close>.
\<close>

definition sample_config :: config where
  "sample_config =
     \<lparr>cfg_need = [], cfg_needless = [], cfg_dump = [([110], True)],
      cfg_length_min = 1, cfg_length_max = 10, cfg_output_part = True\<rparr>"

definition sample_file :: cp_file where
  "sample_file = \<lparr>f_exists = False, f_readable = True, f_writable = True, f_text = []\<rparr>"

definition sample_listener :: "nat \<Rightarrow> listener" where
  "sample_listener b =
     \<lparr>need = [], needless = [], dump = [([110], True)], length_min = 1, length_max = 10,
      output_part = True, tweet_ids = {}, queue = [], BATCH_SIZE = b, dump_count = 0,
      tweet_file = [], reply_file = [], tweet_part_file = [], check_point = sample_file,
      lookup_log = [], dump_log = []\<rparr>"

definition sample_tweet :: "int option \<Rightarrow> int \<Rightarrow> ustr list \<Rightarrow> int \<Rightarrow> entry" where
  "sample_tweet p u ws i =
     (\<lparr>tw_reply_to = p, tw_user = u, tw_text = Toks ws, tw_id = i\<rparr>, map (\<lambda>w. [110]) ws)"


text \<open>
  An environment whose lookup service answers every request with \<open>replys\<close>, and a reply
  and its parent: message 11 by user 7 answers message 10 by user 8, which answers nothing.
\<close>

definition sample_env :: "status list \<Rightarrow> env" where
  "sample_env replys =
     \<lparr>nfkc = (\<lambda>s. s), decimal = (\<lambda>x. None), del_username = (\<lambda>s. s), check_str = (\<lambda>s. True),
      parse = (\<lambda>s. ([[12354]], [[110]])),
      statuses_lookup = (\<lambda>k ids. Some replys),
      set_order = sorted_list_of_set, sink_opens = (\<lambda>k s. True)\<rparr>"

definition sample_raw :: raw_status where
  "sample_raw = \<lparr>raw_reply_to = Some 10, raw_user_id = 7, raw_text = [12354], raw_id = 11\<rparr>"

definition sample_parent :: status where
  "sample_parent =
     \<lparr>st_id_str = [49, 48], st_reply_to = None, st_user_id = 8, st_text = [12356], st_id = 10\<rparr>"




text \<open>
  A check point file that exists and can be read but is empty (a save that was cut
  after \<^verbatim>\<open>open\<close> truncated the file), a world with a good configuration and that file, and a
  world without a configuration file.
\<close>

definition empty_check_point :: cp_file where
  "empty_check_point = \<lparr>f_exists = True, f_readable = True, f_writable = True, f_text = []\<rparr>"

definition sample_world :: "config_file \<Rightarrow> cp_file \<Rightarrow> world" where
  "sample_world c f =
     \<lparr>w_env = sample_env [], w_config = c, w_auth_ok = True, w_tagger_ok = True,
      w_check_point = f, w_tweet_file = [], w_reply_file = [], w_tweet_part_file = []\<rparr>"

definition start_loop :: loop where
  "start_loop = \<lparr>tcpip_delay = 1 / 4, listener_bound = False\<rparr>"

text \<open>A listener with batch size 1 whose queue holds the sample message.\<close>

definition sample_full :: listener where
  "sample_full = admit (sample_listener 1) (sample_tweet (Some 10) 7 [[12354]] 11)"

text \<open>
  A full batch of the constructor's size: chains 0 and 1 are the messages 11 (by user 7)
  and 12 (by user 9), which both answer message 10; the other 98 chains answer message 5,
  which the lookup service does not return. In \<open>lone_batch\<close> chain 0 answers message 5
  too, so that only chain 1 asks for message 10.
\<close>

definition filler :: "dialog list" where
  "filler = map (\<lambda>k. [sample_tweet (Some 5) 6 [[12354]] (int k)]) [13..<111]"

definition shared_batch :: listener where
  "shared_batch =
     (sample_listener 100)
       \<lparr>queue := [sample_tweet (Some 10) 7 [[12354]] 11] # [sample_tweet (Some 10) 9 [[12354]] 12] # filler,
        tweet_ids := {11..110}\<rparr>"

definition lone_batch :: listener where
  "lone_batch =
     (sample_listener 100)
       \<lparr>queue := [sample_tweet (Some 5) 7 [[12354]] 11] # [sample_tweet (Some 10) 9 [[12354]] 12] # filler,
        tweet_ids := {11..110}\<rparr>"



section \<open>The loop body keeps what each step keeps\<close>

lemma alt2_rev: "alt2 us \<Longrightarrow> alt2 (rev us)"
  unfolding alt2_def
proof (intro conjI allI impI)
  fix i assume a: "(\<forall>i. Suc i < length us \<longrightarrow> us ! i \<noteq> us ! Suc i) \<and> (\<forall>i. Suc (Suc i) < length us \<longrightarrow> us ! Suc (Suc i) = us ! i)"
    and i: "Suc i < length (rev us)"
  have "rev us ! i = us ! (length us - Suc i)" "rev us ! Suc i = us ! (length us - Suc (Suc i))"
    using i by (simp_all add: rev_nth)
  moreover have "us ! (length us - Suc (Suc i)) \<noteq> us ! Suc (length us - Suc (Suc i))"
    using a i by simp
  moreover have "Suc (length us - Suc (Suc i)) = length us - Suc i" using i by simp
  ultimately show "rev us ! i \<noteq> rev us ! Suc i" by metis
next
  fix i assume a: "(\<forall>i. Suc i < length us \<longrightarrow> us ! i \<noteq> us ! Suc i) \<and> (\<forall>i. Suc (Suc i) < length us \<longrightarrow> us ! Suc (Suc i) = us ! i)"
    and i: "Suc (Suc i) < length (rev us)"
  have "rev us ! i = us ! (length us - Suc i)" "rev us ! Suc (Suc i) = us ! (length us - Suc (Suc (Suc i)))"
    using i by (simp_all add: rev_nth)
  moreover have "us ! Suc (Suc (length us - Suc (Suc (Suc i)))) = us ! (length us - Suc (Suc (Suc i)))"
    using a i by simp
  moreover have "Suc (Suc (length us - Suc (Suc (Suc i)))) = length us - Suc i" using i by simp
  ultimately show "rev us ! Suc (Suc i) = rev us ! i" by metis
qed

lemma alt2_snoc:
  assumes "alt2 us" "us \<noteq> []" "t \<noteq> us ! (length us - 1)"
    "length us = 1 \<or> t = us ! (length us - 2)"
  shows "alt2 (us @ [t])"
  unfolding alt2_def
proof (intro conjI allI impI)
  fix i assume i: "Suc i < length (us @ [t])"
  show "(us @ [t]) ! i \<noteq> (us @ [t]) ! Suc i"
  proof (cases "Suc i < length us")
    case True then show ?thesis using assms(1) by (simp add: nth_append alt2_def)
  next
    case False
    then have e: "Suc i = length us" using i by simp
    then have "length us - 1 = i" by simp
    then show ?thesis using assms(3) e by (auto simp add: nth_append)
  qed
next
  fix i assume i: "Suc (Suc i) < length (us @ [t])"
  show "(us @ [t]) ! Suc (Suc i) = (us @ [t]) ! i"
  proof (cases "Suc (Suc i) < length us")
    case True then show ?thesis using assms(1) by (simp add: nth_append alt2_def)
  next
    case False
    then have e: "Suc (Suc i) = length us" using i by simp
    then have "length us \<noteq> 1" by simp
    then have "t = us ! (length us - 2)" using assms(4) by simp
    moreover have "length us - 2 = i" using e by simp
    ultimately show ?thesis using e by (auto simp add: nth_append)
  qed
qed

lemma flow_all_simps [simp]:
  "flow_all P (Next (dic, st, di)) = P st"
  "flow_all P (Ret ok st) = P st"
  "flow_all P (Exc e st) = P st"
  by (simp_all add: flow_all_def)

lemma dump_data_fst [simp]: "fst (dump_data ev st d) = rev d"
  by (simp add: dump_data_def Let_def)

lemma conclude_preserves:
  assumes "P st"
    and "idx < length (queue st) \<Longrightarrow> 2 \<le> length (queue st ! idx) \<Longrightarrow> P (dumped ev st idx)"
  shows "flow_all P (conclude ev i dic st di idx)"
  using assms
  by (auto simp add: conclude_def py_nth_def dumped_def Let_def split: prod.splits outcome.splits)

lemma lookup_body_preserves:
  assumes "P st"
    and d: "\<And>st'. P st' \<Longrightarrow> idx < length (queue st') \<Longrightarrow> 2 \<le> length (queue st' ! idx) \<Longrightarrow> P (dumped ev st' idx)"
    and e: "\<And>en. idx < length (queue st) \<Longrightarrow> talker_check st (author en) idx = Inr True
               \<Longrightarrow> P (extended st idx en)"
  shows "flow_all P (lookup_body ev ids idx (dic, st, di))"
proof -
  have c: "\<And>i dic st' di. P st' \<Longrightarrow> flow_all P (conclude ev i dic st' di idx)"
    by (rule conclude_preserves) (auto intro: d)
  have e': "\<And>tw t ps. idx < length (queue st) \<Longrightarrow> talker_check st (tw_user tw) idx = Inr True
      \<Longrightarrow> P (st\<lparr>queue := (queue st)[idx := queue st ! idx @ [(tw\<lparr>tw_text := t\<rparr>, ps)]],
                 tweet_ids := insert (tw_id tw) (tweet_ids st)\<rparr>)"
    using e[of "(tw\<lparr>tw_text := t\<rparr>, ps)" for tw t ps] by (simp add: extended_def author_def)
  show ?thesis
    using assms(1) c e'
    by (simp add: lookup_body_def py_nth_def Let_def
        split: sum.splits option.splits text_val.splits bool.splits prod.splits)
qed

lemma lookup_loop_preserves:
  assumes "P st"
    and d: "\<And>st' idx. idx \<in> set idxs \<Longrightarrow> P st' \<Longrightarrow> idx < length (queue st')
              \<Longrightarrow> 2 \<le> length (queue st' ! idx) \<Longrightarrow> P (dumped ev st' idx)"
    and e: "\<And>st' idx en. idx \<in> set idxs \<Longrightarrow> P st' \<Longrightarrow> idx < length (queue st')
              \<Longrightarrow> talker_check st' (author en) idx = Inr True \<Longrightarrow> P (extended st' idx en)"
  shows "flow_all P (lookup_loop ev ids idxs (dic, st, di))"
  using assms
proof (induction idxs arbitrary: dic st di)
  case Nil
  then show ?case by simp
next
  case (Cons idx rest)
  have b: "flow_all P (lookup_body ev ids idx (dic, st, di))"
    by (rule lookup_body_preserves) (auto intro: Cons.prems)
  show ?case
  proof (cases "lookup_body ev ids idx (dic, st, di)")
    case (Next acc)
    obtain dic' st' di' where acc: "acc = (dic', st', di')" by (cases acc) auto
    have "P st'" using b Next acc by simp
    then have "flow_all P (lookup_loop ev ids rest (dic', st', di'))"
      by (rule Cons.IH) (auto intro: Cons.prems)
    then show ?thesis using Next acc by simp
  next
    case (Ret ok st')
    then show ?thesis using b by simp
  next
    case (Exc x st')
    then show ?thesis using b by simp
  qed
qed

lemma set_dellist: "set (dellist xs di) \<subseteq> set xs"
  by (auto simp add: dellist_def in_set_enumerate_eq)

lemma length_dellist: "length (dellist xs di) \<le> length xs"
proof -
  have "length (dellist xs di) \<le> length (enumerate 0 xs)"
    unfolding dellist_def length_map by (rule length_filter_le)
  then show ?thesis by simp
qed

lemma collect_ids_length: "collect_ids q = Inr ids \<Longrightarrow> length ids = length q"
  by (induction q arbitrary: ids) (auto split: sum.splits)

lemma collect_ids_ok: "\<forall>d \<in> set q. d \<noteq> [] \<Longrightarrow> \<exists>ids. collect_ids q = Inr ids"
  by (induction q) (auto simp add: py_last_def split: sum.splits)

lemma lookup_final:
  assumes q: "Q st"
    and l: "\<And>ids. collect_ids (queue st) = Inr ids \<Longrightarrow> P (st\<lparr>lookup_log := lookup_log st @ [ids]\<rparr>)"
    and d: "\<And>st' idx. idx < BATCH_SIZE st \<Longrightarrow> P st' \<Longrightarrow> idx < length (queue st')
              \<Longrightarrow> 2 \<le> length (queue st' ! idx) \<Longrightarrow> P (dumped ev st' idx)"
    and e: "\<And>st' idx en. idx < BATCH_SIZE st \<Longrightarrow> P st' \<Longrightarrow> idx < length (queue st')
              \<Longrightarrow> talker_check st' (author en) idx = Inr True \<Longrightarrow> P (extended st' idx en)"
    and pq: "\<And>st'. P st' \<Longrightarrow> Q st'"
    and del: "\<And>st' di. P st' \<Longrightarrow> Q (st'\<lparr>queue := dellist (queue st') di\<rparr>)"
  shows "Q (final (lookup ev st))"
proof (cases "collect_ids (queue st)")
  case (Inl e)
  then show ?thesis using q by (simp add: lookup_def)
next
  case (Inr ids)
  let ?st0 = "st\<lparr>lookup_log := lookup_log st @ [ids]\<rparr>"
  have p0: "P ?st0" using l Inr by simp
  show ?thesis
  proof (cases "statuses_lookup ev (length (lookup_log st)) ids")
    case None
    then show ?thesis using Inr p0 pq by (simp add: lookup_def Let_def)
  next
    case r: (Some replys)
    have f: "flow_all P (lookup_loop ev ids [0..<BATCH_SIZE st] (mk_dic ev replys, ?st0, []))"
      by (rule lookup_loop_preserves) (auto intro: p0 d e)
    show ?thesis
      using f Inr r pq del
      by (auto simp add: lookup_def Let_def split: flow.splits)
  qed
qed

lemma lookup_while_final:
  assumes run: "lookup_while ev st = Some out" and i: "I st"
    and step: "\<And>st. I st \<Longrightarrow> length (queue st) = BATCH_SIZE st \<Longrightarrow> I (final (lookup ev st))"
  shows "I (final out) \<and> (\<forall>st'. out = Return True st' \<longrightarrow> length (queue st') \<noteq> BATCH_SIZE st')"
proof -
  let ?C = "\<lambda>out. I (final out) \<and> (\<forall>st'. out = Return True st' \<longrightarrow> length (queue st') \<noteq> BATCH_SIZE st')"
  have "ev = ev \<longrightarrow> I st \<longrightarrow> ?C out"
  proof (rule lookup_while.raw_induct
      [where P = "\<lambda>ev' st out. ev' = ev \<longrightarrow> I st \<longrightarrow> ?C out", OF _ run])
    fix lw ev' st out
    assume ih: "\<And>ev' st out. lw ev' st = Some out \<Longrightarrow> ev' = ev \<longrightarrow> I st \<longrightarrow> ?C out"
      and eq: "(if length (queue st) = BATCH_SIZE st
                then case lookup ev' st of
                       Return ok st' \<Rightarrow> if \<not> ok then Some (Return False st') else lw ev' st'
                     | Raise e st' \<Rightarrow> Some (Raise e st')
                else Some (Return True st)) = Some out"
    show "ev' = ev \<longrightarrow> I st \<longrightarrow> ?C out"
    proof (intro impI)
      assume e: "ev' = ev" and ist: "I st"
      show "?C out"
      proof (cases "length (queue st) = BATCH_SIZE st")
        case False
        then show ?thesis using eq ist by auto
      next
        case True
        have il: "I (final (lookup ev st))" using step ist True by simp
        show ?thesis
        proof (cases "lookup ev st")
          case (Raise x st')
          then show ?thesis using eq True il e by auto
        next
          case (Return ok st')
          show ?thesis
          proof (cases ok)
            case False
            then show ?thesis using eq True il Return e by auto
          next
            case ok: True
            then have "lw ev st' = Some out" using eq True Return e by simp
            moreover have "I st'" using il Return by simp
            ultimately show ?thesis using ih by blast
          qed
        qed
      qed
    qed
  qed
  then show ?thesis using i by simp
qed

section \<open>Alternation is an invariant of the queue\<close>

lemma dumped_fields [simp]:
  "queue (dumped ev st idx) = (queue st)[idx := rev (queue st ! idx)]"
  "BATCH_SIZE (dumped ev st idx) = BATCH_SIZE st"
  "lookup_log (dumped ev st idx) = lookup_log st"
  "tweet_ids (dumped ev st idx) = tweet_ids st"
  "dump_log (dumped ev st idx) = dump_log st @ [rev (queue st ! idx)]"
  by (simp_all add: dumped_def dump_data_def Let_def)

lemma extended_fields [simp]:
  "queue (extended st idx en) = (queue st)[idx := queue st ! idx @ [en]]"
  "BATCH_SIZE (extended st idx en) = BATCH_SIZE st"
  "lookup_log (extended st idx en) = lookup_log st"
  "tweet_ids (extended st idx en) = insert (tw_id (fst en)) (tweet_ids st)"
  "dump_log (extended st idx en) = dump_log st"
  by (simp_all add: extended_def)

lemma talker_check_True:
  assumes "talker_check st t idx = Inr True"
  shows "idx < length (queue st) \<and> queue st ! idx \<noteq> []
         \<and> t \<noteq> author (queue st ! idx ! (length (queue st ! idx) - 1))
         \<and> (length (queue st ! idx) = 1
            \<or> t = author (queue st ! idx ! (length (queue st ! idx) - 2)))"
  using assms
  by (auto simp add: talker_check_def py_nth_def py_last_def py_last2_def author_def
      split: if_splits sum.splits)

lemma dumped_alt:
  assumes "alt_inv st" "idx < length (queue st)"
  shows "alt_inv (dumped ev st idx)"
proof -
  have d: "queue st ! idx \<in> set (queue st)" using assms(2) by simp
  then have a: "queue st ! idx \<noteq> [] \<and> alt2 (map author (queue st ! idx))"
    using assms(1) by (simp add: alt_inv_def)
  then have r: "alt2 (map author (rev (queue st ! idx)))"
    using alt2_rev[of "map author (queue st ! idx)"] by (simp add: rev_map)
  have s: "\<forall>x \<in> set ((queue st)[idx := rev (queue st ! idx)]).
          x = rev (queue st ! idx) \<or> x \<in> set (queue st)"
    using set_update_subset_insert[of "queue st" idx "rev (queue st ! idx)"] by auto
  have q: "\<forall>x \<in> set (queue (dumped ev st idx)). x \<noteq> [] \<and> alt2 (map author x)"
  proof
    fix x assume "x \<in> set (queue (dumped ev st idx))"
    then have "x = rev (queue st ! idx) \<or> x \<in> set (queue st)" using s by simp
    then show "x \<noteq> [] \<and> alt2 (map author x)"
      using a r assms(1) by (auto simp add: alt_inv_def)
  qed
  have l: "\<forall>x \<in> set (dump_log (dumped ev st idx)). alt2 (map author x)"
    using assms(1) r by (auto simp add: alt_inv_def)
  show ?thesis unfolding alt_inv_def using q l by blast
qed

lemma extended_alt:
  assumes "alt_inv st" "talker_check st (author en) idx = Inr True"
  shows "alt_inv (extended st idx en)"
proof -
  let ?d = "queue st ! idx"
  have t: "idx < length (queue st) \<and> ?d \<noteq> []
         \<and> author en \<noteq> author (?d ! (length ?d - 1))
         \<and> (length ?d = 1 \<or> author en = author (?d ! (length ?d - 2)))"
    using talker_check_True[OF assms(2)] .
  then have "?d \<in> set (queue st)" by simp
  then have a: "alt2 (map author ?d)" using assms(1) by (simp add: alt_inv_def)
  have "alt2 (map author ?d @ [author en])"
  proof (rule alt2_snoc)
    show "alt2 (map author ?d)" by (rule a)
    show "map author ?d \<noteq> []" using t by simp
    show "author en \<noteq> map author ?d ! (length (map author ?d) - 1)" using t by simp
    show "length (map author ?d) = 1 \<or> author en = map author ?d ! (length (map author ?d) - 2)"
      using t by (cases "length ?d = 1") auto
  qed
  then have n: "alt2 (map author (?d @ [en]))" by simp
  have s: "\<forall>x \<in> set ((queue st)[idx := ?d @ [en]]). x = ?d @ [en] \<or> x \<in> set (queue st)"
    using set_update_subset_insert[of "queue st" idx "?d @ [en]"] by auto
  have q: "\<forall>x \<in> set (queue (extended st idx en)). x \<noteq> [] \<and> alt2 (map author x)"
  proof
    fix x assume "x \<in> set (queue (extended st idx en))"
    then have "x = ?d @ [en] \<or> x \<in> set (queue st)" using s by simp
    then show "x \<noteq> [] \<and> alt2 (map author x)"
    proof
      assume "x = ?d @ [en]" then show ?thesis using n by simp
    next
      assume "x \<in> set (queue st)" then show ?thesis using assms(1) by (simp add: alt_inv_def)
    qed
  qed
  have l: "\<forall>x \<in> set (dump_log (extended st idx en)). alt2 (map author x)"
    using assms(1) by (simp add: alt_inv_def)
  show ?thesis unfolding alt_inv_def using q l by blast
qed

lemma log_alt: "alt_inv st \<Longrightarrow> alt_inv (st\<lparr>lookup_log := l\<rparr>)"
  by (simp add: alt_inv_def)

lemma dellist_alt: "alt_inv st \<Longrightarrow> alt_inv (st\<lparr>queue := dellist (queue st) di\<rparr>)"
  using set_dellist[of "queue st" di] by (auto simp add: alt_inv_def)

lemma lookup_alt:
  assumes "alt_inv st"
  shows "alt_inv (final (lookup ev st))"
proof (rule lookup_final[where P = alt_inv and Q = alt_inv])
  show "alt_inv st" by (rule assms)
  show "\<And>ids. collect_ids (queue st) = Inr ids \<Longrightarrow> alt_inv (st\<lparr>lookup_log := lookup_log st @ [ids]\<rparr>)"
    using assms by (rule log_alt)
  show "\<And>st' idx. idx < BATCH_SIZE st \<Longrightarrow> alt_inv st' \<Longrightarrow> idx < length (queue st')
          \<Longrightarrow> 2 \<le> length (queue st' ! idx) \<Longrightarrow> alt_inv (dumped ev st' idx)"
    by (rule dumped_alt)
  show "\<And>st' idx en. idx < BATCH_SIZE st \<Longrightarrow> alt_inv st' \<Longrightarrow> idx < length (queue st')
          \<Longrightarrow> talker_check st' (author en) idx = Inr True \<Longrightarrow> alt_inv (extended st' idx en)"
    by (rule extended_alt)
  show "\<And>st'. alt_inv st' \<Longrightarrow> alt_inv st'" .
  show "\<And>st' di. alt_inv st' \<Longrightarrow> alt_inv (st'\<lparr>queue := dellist (queue st') di\<rparr>)"
    by (rule dellist_alt)
qed

lemma alt2_single [simp]: "alt2 [u]"
  by (simp add: alt2_def)

lemma admit_alt: "alt_inv st \<Longrightarrow> alt_inv (admit st en)"
  by (auto simp add: alt_inv_def admit_def)

lemma on_status_cases:
  assumes "on_status ev raw st = Some out"
  shows "out = Return True st
         \<or> (\<exists>en. tw_id (fst en) = raw_id raw \<and> lookup_while ev (admit st en) = Some out)"
proof (cases "raw_reply_to raw")
  case None
  then show ?thesis using assms by (simp add: on_status_def)
next
  case (Some parent)
  let ?s = "del_username ev (nfkc ev (raw_text raw))"
  obtain words parts where p: "parse ev (normalize ?s) = (words, parts)" by (cases "parse ev (normalize ?s)")
  obtain words' parts' where f: "dump_filter st words parts = (words', parts')"
    by (cases "dump_filter st words parts")
  let ?en = "(\<lparr>tw_reply_to = Some parent, tw_user = raw_user_id raw,
               tw_text = Toks words', tw_id = raw_id raw\<rparr>, parts')"
  show ?thesis
  proof (cases "check_str ev ?s \<and> need_check st parts \<and> needless_check st parts
                \<and> length_check st words'")
    case True
    then have "lookup_while ev (admit st ?en) = Some out"
      using assms Some p f by (simp add: on_status_def Let_def)
    moreover have "tw_id (fst ?en) = raw_id raw" by simp
    ultimately show ?thesis by blast
  next
    case False
    then have "out = Return True st"
      using assms Some p f by (auto simp add: on_status_def Let_def split: if_splits)
    then show ?thesis by simp
  qed
qed

lemma on_status_final:
  assumes os: "on_status ev raw st = Some out" and i: "I st"
    and adm: "\<And>st en. I st \<Longrightarrow> I (admit st en)"
    and step: "\<And>st. I st \<Longrightarrow> length (queue st) = BATCH_SIZE st \<Longrightarrow> I (final (lookup ev st))"
  shows "I (final out)"
proof -
  from on_status_cases[OF os] show ?thesis
  proof
    assume "out = Return True st" then show ?thesis using i by simp
  next
    assume "\<exists>en. tw_id (fst en) = raw_id raw \<and> lookup_while ev (admit st en) = Some out"
    then obtain en where lw: "lookup_while ev (admit st en) = Some out" by blast
    have "I (admit st en)" using i by (rule adm)
    then show ?thesis
      using lookup_while_final[OF lw, where I = I] step by simp
  qed
qed

lemma run_final:
  assumes r: "run ev raws st = Some out" and i: "I st"
    and adm: "\<And>st en. I st \<Longrightarrow> I (admit st en)"
    and step: "\<And>st. I st \<Longrightarrow> length (queue st) = BATCH_SIZE st \<Longrightarrow> I (final (lookup ev st))"
  shows "I (final out)"
  using r i
proof (induction raws arbitrary: st)
  case Nil
  then show ?case by auto
next
  case (Cons raw raws)
  show ?case
  proof (cases "on_status ev raw st")
    case None
    then show ?thesis using Cons.prems by simp
  next
    case (Some o1)
    have a: "I (final o1)"
      using Some Cons.prems(2) by (rule on_status_final) (auto intro: adm step)
    show ?thesis
    proof (cases o1)
      case (Raise e st')
      then show ?thesis using Some Cons.prems a by auto
    next
      case (Return ok st')
      then show ?thesis using Some Cons.prems a Cons.IH[of st'] by (cases ok) auto
    qed
  qed
qed

lemma run_alt:
  assumes "alt_inv st" "run ev raws st = Some out"
  shows "alt_inv (final out)"
  using assms(2,1)
proof (rule run_final)
  show "\<And>st en. alt_inv st \<Longrightarrow> alt_inv (admit st en)" by (rule admit_alt)
  show "\<And>st. alt_inv st \<Longrightarrow> length (queue st) = BATCH_SIZE st \<Longrightarrow> alt_inv (final (lookup ev st))"
    by (rule lookup_alt)
qed

text \<open>The sample message is admitted, its parent is looked up and the pair is dumped.\<close>

lemma sample_run:
  "\<exists>out. run (sample_env [sample_parent]) [sample_raw] (sample_listener 1) = Some out
        \<and> length (dump_log (final out)) = 1 \<and> queue (final out) = []
        \<and> length (tweet_file (final out)) = 1"
  by (simp add: sample_env_def sample_raw_def sample_parent_def sample_listener_def
      on_status_def Let_def need_check_def needless_check_def dump_filter_def length_check_def
      admit_def lookup_while.simps lookup_def py_last_def py_nth_def mk_dic_def mk_tweet_def
      lookup_body_def py_str_opt_def py_str_def talker_check_def conclude_def dump_data_def
      dellist_def enumerate_eq_zip upt_conv_Cons)


section \<open>What a call of dump\_data writes\<close>







section \<open>Indices in lookup\<close>

lemma talker_check_err:
  "idx < length (queue st) \<Longrightarrow> talker_check st u idx = Inl e \<Longrightarrow> e = IndexError OfChain"
  by (auto simp add: talker_check_def py_nth_def py_last_def py_last2_def
      split: if_splits sum.splits)

lemma conclude_no_index:
  "idx < length (queue st) \<Longrightarrow> conclude ev b dic st di idx \<noteq> Exc (IndexError pl) st'"
  by (auto simp add: conclude_def py_nth_def dump_data_def Let_def split: prod.splits outcome.splits)

lemma lookup_body_no_index:
  assumes "idx < length ids" "idx < length (queue st)" "pl \<noteq> OfChain"
  shows "lookup_body ev ids idx (dic, st, di) \<noteq> Exc (IndexError pl) st'"
proof -
  have t: "\<And>u e. talker_check st u idx = Inl e \<Longrightarrow> e \<noteq> IndexError pl"
    using talker_check_err[OF assms(2)] assms(3) by auto
  have c: "\<And>b dic s di. length (queue s) = length (queue st)
             \<Longrightarrow> conclude ev b dic s di idx \<noteq> Exc (IndexError pl) st'"
    using assms(2) by (simp add: conclude_no_index)
  show ?thesis
    using assms(1,2) t c
    by (auto simp add: lookup_body_def py_nth_def Let_def
        split: sum.splits option.splits text_val.splits bool.splits prod.splits)
qed

lemma lookup_loop_no_index:
  assumes "\<forall>idx \<in> set idxs. idx < length ids \<and> idx < length (queue st)" "pl \<noteq> OfChain"
  shows "lookup_loop ev ids idxs (dic, st, di) \<noteq> Exc (IndexError pl) st'"
  using assms(1)
proof (induction idxs arbitrary: dic st di)
  case Nil
  then show ?case by simp
next
  case (Cons idx rest)
  have i: "idx < length ids" "idx < length (queue st)" using Cons.prems by simp_all
  have b: "lookup_body ev ids idx (dic, st, di) \<noteq> Exc (IndexError pl) st'"
    using i assms(2) by (rule lookup_body_no_index)
  have k: "flow_all (\<lambda>s. length (queue s) = length (queue st)) (lookup_body ev ids idx (dic, st, di))"
    by (rule lookup_body_preserves) simp_all
  show ?case
  proof (cases "lookup_body ev ids idx (dic, st, di)")
    case (Next acc)
    obtain dic' s di' where acc: "acc = (dic', s, di')" by (cases acc) auto
    have "length (queue s) = length (queue st)" using k Next acc by simp
    then have "\<forall>j \<in> set rest. j < length ids \<and> j < length (queue s)"
      using Cons.prems by simp
    then have "lookup_loop ev ids rest (dic', s, di') \<noteq> Exc (IndexError pl) st'"
      by (rule Cons.IH)
    then show ?thesis using Next acc by simp
  next
    case (Ret ok s)
    then show ?thesis by simp
  next
    case (Exc x s)
    then show ?thesis using b by auto
  qed
qed

lemma collect_ids_err: "collect_ids q = Inl e \<Longrightarrow> e = IndexError OfChain"
  by (induction q arbitrary: e) (auto simp add: py_last_def split: sum.splits if_splits)

lemma lookup_no_index:
  assumes "length (queue st) = BATCH_SIZE st" "pl \<noteq> OfChain"
  shows "lookup ev st \<noteq> Raise (IndexError pl) st'"
proof (cases "collect_ids (queue st)")
  case (Inl e)
  have "e = IndexError OfChain" using Inl by (rule collect_ids_err)
  then show ?thesis using Inl assms(2) by (auto simp add: lookup_def)
next
  case (Inr ids)
  have l: "length ids = BATCH_SIZE st" using collect_ids_length[OF Inr] assms(1) by simp
  show ?thesis
  proof (cases "statuses_lookup ev (length (lookup_log st)) ids")
    case None
    then show ?thesis using Inr by (simp add: lookup_def Let_def)
  next
    case r: (Some replys)
    let ?st0 = "st\<lparr>lookup_log := lookup_log st @ [ids]\<rparr>"
    have "\<forall>idx \<in> set [0..<BATCH_SIZE st]. idx < length ids \<and> idx < length (queue ?st0)"
      using l assms(1) by simp
    then have "lookup_loop ev ids [0..<BATCH_SIZE st] (mk_dic ev replys, ?st0, []) \<noteq> Exc (IndexError pl) st'"
      using assms(2) by (rule lookup_loop_no_index)
    then show ?thesis
      using Inr r by (auto simp add: lookup_def Let_def split: flow.splits)
  qed
qed


lemma lookup_while_out:
  assumes run: "lookup_while ev st = Some out"
  shows "(\<exists>s. out = Return True s \<and> length (queue s) \<noteq> BATCH_SIZE s)
         \<or> (\<exists>s. length (queue s) = BATCH_SIZE s \<and> lookup ev s = out)"
proof -
  let ?C = "\<lambda>ev out. (\<exists>s. out = Return True s \<and> length (queue s) \<noteq> BATCH_SIZE s)
         \<or> (\<exists>s. length (queue s) = BATCH_SIZE s \<and> lookup ev s = out)"
  show ?thesis
  proof (rule lookup_while.raw_induct [where P = "\<lambda>ev st out. ?C ev out", OF _ run])
    fix lw ev st out
    assume ih: "\<And>ev st out. lw ev st = Some out \<Longrightarrow> ?C ev out"
      and eq: "(if length (queue st) = BATCH_SIZE st
                then case lookup ev st of
                       Return ok st' \<Rightarrow> if \<not> ok then Some (Return False st') else lw ev st'
                     | Raise e st' \<Rightarrow> Some (Raise e st')
                else Some (Return True st)) = Some out"
    show "?C ev out"
    proof (cases "length (queue st) = BATCH_SIZE st")
      case False
      then show ?thesis using eq by auto
    next
      case True
      show ?thesis
      proof (cases "lookup ev st")
        case (Raise x st')
        then show ?thesis using eq True by auto
      next
        case (Return ok st')
        show ?thesis
        proof (cases ok)
          case False
          then show ?thesis using eq True Return by auto
        next
          case ok: True
          then have "lw ev st' = Some out" using eq True Return by simp
          then show ?thesis by (rule ih)
        qed
      qed
    qed
  qed
qed

lemma on_status_no_index:
  assumes "on_status ev raw st = Some out" "pl \<noteq> OfChain"
  shows "out \<noteq> Raise (IndexError pl) st'"
proof -
  from on_status_cases[OF assms(1)] show ?thesis
  proof
    assume "out = Return True st" then show ?thesis by simp
  next
    assume "\<exists>en. tw_id (fst en) = raw_id raw \<and> lookup_while ev (admit st en) = Some out"
    then obtain en where lw: "lookup_while ev (admit st en) = Some out" by blast
    from lookup_while_out[OF lw] show ?thesis
      using lookup_no_index[OF _ assms(2)] by auto
  qed
qed

lemma run_no_index:
  assumes "run ev raws st = Some out" "pl \<noteq> OfChain"
  shows "out \<noteq> Raise (IndexError pl) st'"
  using assms(1)
proof (induction raws arbitrary: st)
  case Nil
  then show ?case by auto
next
  case (Cons raw raws)
  show ?case
  proof (cases "on_status ev raw st")
    case None
    then show ?thesis using Cons.prems by simp
  next
    case (Some o1)
    have a: "o1 \<noteq> Raise (IndexError pl) st'"
      using Some assms(2) by (rule on_status_no_index)
    show ?thesis
    proof (cases o1)
      case (Raise e s)
      then show ?thesis using Some Cons.prems a by auto
    next
      case (Return ok s)
      then show ?thesis using Some Cons.prems Cons.IH[of s] by (cases ok) auto
    qed
  qed
qed

lemma sample_lookup:
  "\<exists>s. lookup (sample_env [sample_parent]) sample_full = Return True s \<and> queue s = []
       \<and> lookup_log s = [[Some 10]]"
  by (simp add: sample_full_def sample_tweet_def sample_env_def sample_parent_def sample_listener_def
      Let_def need_check_def needless_check_def dump_filter_def length_check_def
      admit_def lookup_def py_last_def py_nth_def mk_dic_def mk_tweet_def
      lookup_body_def py_str_opt_def py_str_def talker_check_def conclude_def dump_data_def
      dellist_def enumerate_eq_zip upt_conv_Cons)


section \<open>The queue and the batch size\<close>

lemma on_status_eq:
  "on_status ev raw st =
     (if accepts ev st raw then lookup_while ev (admit st (entry_of ev st raw))
      else Some (Return True st))"
  by (auto simp add: on_status_def accepts_def entry_of_def Let_def
      split: option.splits prod.splits)

lemma chains_ok_update:
  assumes "chains_ok st" "d \<noteq> []"
  shows "\<forall>x \<in> set ((queue st)[idx := d]). x \<noteq> []"
proof
  fix x assume "x \<in> set ((queue st)[idx := d])"
  then have "x = d \<or> x \<in> set (queue st)"
    using set_update_subset_insert[of "queue st" idx d] by auto
  then show "x \<noteq> []" using assms by (auto simp add: chains_ok_def)
qed

lemma dumped_cap:
  assumes "cap_inv b l st \<and> length (queue st) = b" "idx < length (queue st)"
  shows "cap_inv b l (dumped ev st idx) \<and> length (queue (dumped ev st idx)) = b"
proof -
  have "queue st ! idx \<in> set (queue st)" using assms(2) by simp
  then have "rev (queue st ! idx) \<noteq> []" using assms(1) by (auto simp add: cap_inv_def chains_ok_def)
  then have "\<forall>x \<in> set ((queue st)[idx := rev (queue st ! idx)]). x \<noteq> []"
    using assms(1) by (intro chains_ok_update) (simp_all add: cap_inv_def)
  then show ?thesis using assms(1) by (simp add: cap_inv_def chains_ok_def)
qed

lemma extended_cap:
  assumes "cap_inv b l st \<and> length (queue st) = b"
  shows "cap_inv b l (extended st idx en) \<and> length (queue (extended st idx en)) = b"
proof -
  have "\<forall>x \<in> set ((queue st)[idx := queue st ! idx @ [en]]). x \<noteq> []"
    using assms by (intro chains_ok_update) (simp_all add: cap_inv_def)
  then show ?thesis using assms by (simp add: cap_inv_def chains_ok_def)
qed

lemma lookup_cap:
  assumes "cap_inv b l st" "length (queue st) = b"
  shows "cap_inv b l (final (lookup ev st))"
proof (rule lookup_final[where P = "\<lambda>s. cap_inv b l s \<and> length (queue s) = b" and Q = "cap_inv b l"])
  show "cap_inv b l st" by (rule assms)
  show "cap_inv b l (st\<lparr>lookup_log := lookup_log st @ [ids]\<rparr>)
        \<and> length (queue (st\<lparr>lookup_log := lookup_log st @ [ids]\<rparr>)) = b"
    if "collect_ids (queue st) = Inr ids" for ids
  proof -
    have "length ids = b" using collect_ids_length[OF that] assms(2) by simp
    then show ?thesis using assms by (auto simp add: cap_inv_def chains_ok_def)
  qed
  show "\<And>st' idx. idx < BATCH_SIZE st \<Longrightarrow> cap_inv b l st' \<and> length (queue st') = b
          \<Longrightarrow> idx < length (queue st') \<Longrightarrow> 2 \<le> length (queue st' ! idx)
          \<Longrightarrow> cap_inv b l (dumped ev st' idx) \<and> length (queue (dumped ev st' idx)) = b"
    by (simp add: dumped_cap)
  show "\<And>st' idx en. idx < BATCH_SIZE st \<Longrightarrow> cap_inv b l st' \<and> length (queue st') = b
          \<Longrightarrow> idx < length (queue st') \<Longrightarrow> talker_check st' (author en) idx = Inr True
          \<Longrightarrow> cap_inv b l (extended st' idx en) \<and> length (queue (extended st' idx en)) = b"
    by (simp add: extended_cap)
  show "\<And>st'. cap_inv b l st' \<and> length (queue st') = b \<Longrightarrow> cap_inv b l st'" by simp
  show "cap_inv b l (st'\<lparr>queue := dellist (queue st') di\<rparr>)"
    if "cap_inv b l st' \<and> length (queue st') = b" for st' di
    using that set_dellist[of "queue st'" di] length_dellist[of "queue st'" di]
    by (auto simp add: cap_inv_def chains_ok_def)
qed

lemma lookup_log_grows:
  assumes c: "collect_ids (queue st) = Inr ids"
  shows "lookup_log (final (lookup ev st)) = lookup_log st @ [ids]"
proof (cases "statuses_lookup ev (length (lookup_log st)) ids")
  case None
  then show ?thesis using c by (simp add: lookup_def Let_def)
next
  case (Some replys)
  let ?P = "\<lambda>s. lookup_log s = lookup_log st @ [ids]"
  have "flow_all ?P (lookup_loop ev ids [0..<BATCH_SIZE st]
                       (mk_dic ev replys, st\<lparr>lookup_log := lookup_log st @ [ids]\<rparr>, []))"
    by (rule lookup_loop_preserves) simp_all
  then show ?thesis
    using c Some by (auto simp add: lookup_def Let_def split: flow.splits)
qed


lemma cap_inv_relog:
  "cap_inv b l st \<Longrightarrow> cap_inv b (lookup_log st) st"
  by (simp add: cap_inv_def)

lemma cap_inv_trans:
  assumes "cap_inv b (l @ rs) st" "list_all (\<lambda>r. length r = b) rs"
  shows "cap_inv b l st"
proof -
  from assms(1) obtain reqs where "lookup_log st = (l @ rs) @ reqs" "list_all (\<lambda>r. length r = b) reqs"
    by (auto simp add: cap_inv_def)
  then have "lookup_log st = l @ (rs @ reqs) \<and> list_all (\<lambda>r. length r = b) (rs @ reqs)"
    using assms(2) by simp
  then show ?thesis using assms(1) unfolding cap_inv_def by blast
qed

lemma lookup_while_cap:
  assumes lw: "lookup_while ev st = Some out" and c: "cap_inv b l st"
  shows "cap_inv b l (final out) \<and> (\<forall>st'. out = Return True st' \<longrightarrow> length (queue st') < b)"
proof -
  have "cap_inv b l (final out)
        \<and> (\<forall>st'. out = Return True st' \<longrightarrow> length (queue st') \<noteq> BATCH_SIZE st')"
    using lw c
  proof (rule lookup_while_final)
    show "\<And>st. cap_inv b l st \<Longrightarrow> length (queue st) = BATCH_SIZE st
            \<Longrightarrow> cap_inv b l (final (lookup ev st))"
      by (rule lookup_cap) (simp_all add: cap_inv_def)
  qed
  then show ?thesis by (auto simp add: cap_inv_def)
qed

lemma lookup_while_calls:
  assumes lw: "lookup_while ev st = Some out" and c: "cap_inv b (lookup_log st) st"
    and f: "length (queue st) = b"
  shows "\<exists>ids reqs. lookup_log (final out) = lookup_log st @ ids # reqs"
proof -
  have bs: "BATCH_SIZE st = b" and ok: "chains_ok st" using c by (simp_all add: cap_inv_def)
  obtain ids where ids: "collect_ids (queue st) = Inr ids"
    using ok collect_ids_ok[of "queue st"] by (auto simp add: chains_ok_def)
  have g: "lookup_log (final (lookup ev st)) = lookup_log st @ [ids]"
    using ids by (rule lookup_log_grows)
  have c1: "cap_inv b (lookup_log st) (final (lookup ev st))"
    using c f by (rule lookup_cap)
  show ?thesis
  proof (cases "lookup ev st")
    case (Raise e s)
    then have "out = Raise e s" using lw f bs by (simp add: lookup_while.simps)
    then show ?thesis using g Raise by simp
  next
    case (Return okv s)
    show ?thesis
    proof (cases okv)
      case False
      then have "out = Return False s" using lw f bs Return by (simp add: lookup_while.simps)
      then show ?thesis using g Return by simp
    next
      case True
      then have lw': "lookup_while ev s = Some out"
        using lw f bs Return by (simp add: lookup_while.simps)
      have "cap_inv b (lookup_log s) s" using c1 Return by (simp add: cap_inv_relog)
      then have "cap_inv b (lookup_log s) (final out)"
        using lookup_while_cap[OF lw'] by simp
      then obtain reqs where "lookup_log (final out) = lookup_log s @ reqs"
        by (auto simp add: cap_inv_def)
      then show ?thesis using g Return by simp
    qed
  qed
qed

lemma admit_cap:
  assumes "BATCH_SIZE st = b" "chains_ok st" "length (queue st) < b"
  shows "cap_inv b (lookup_log st) (admit st en)"
  using assms by (simp add: cap_inv_def admit_def chains_ok_def)

lemma on_status_cap:
  assumes len: "length (queue st) < BATCH_SIZE st" and ok: "chains_ok st"
    and os: "on_status ev raw st = Some out"
  shows "cap_inv (BATCH_SIZE st) (lookup_log st) (final out)"
    and "\<forall>st'. out = Return True st' \<longrightarrow> length (queue st') < BATCH_SIZE st"
    and "\<not> accepts ev st raw \<longrightarrow> out = Return True st"
    and "accepts ev st raw \<and> Suc (length (queue st)) < BATCH_SIZE st
           \<longrightarrow> out = Return True (admit st (entry_of ev st raw))"
    and "lookup_log (final out) \<noteq> lookup_log st
           \<longleftrightarrow> accepts ev st raw \<and> Suc (length (queue st)) = BATCH_SIZE st"
proof -
  let ?b = "BATCH_SIZE st" and ?s1 = "admit st (entry_of ev st raw)"
  have c0: "cap_inv ?b (lookup_log st) st"
    using len ok by (simp add: cap_inv_def)
  have c1: "cap_inv ?b (lookup_log st) ?s1"
    using len ok by (simp add: admit_cap)
  have l1: "lookup_log ?s1 = lookup_log st" "length (queue ?s1) = Suc (length (queue st))"
    "BATCH_SIZE ?s1 = ?b"
    by (simp_all add: admit_def)
  show n: "\<not> accepts ev st raw \<longrightarrow> out = Return True st"
    using os by (auto simp add: on_status_eq)
  show a: "accepts ev st raw \<and> Suc (length (queue st)) < BATCH_SIZE st
           \<longrightarrow> out = Return True ?s1"
    using os l1 by (auto simp add: on_status_eq lookup_while.simps)
  have w: "cap_inv ?b (lookup_log st) (final out)
           \<and> (\<forall>st'. out = Return True st' \<longrightarrow> length (queue st') < ?b)"
  proof (cases "accepts ev st raw")
    case False
    then show ?thesis using n c0 len by auto
  next
    case True
    then have "lookup_while ev ?s1 = Some out" using os by (simp add: on_status_eq)
    then show ?thesis using c1 by (rule lookup_while_cap)
  qed
  show "cap_inv ?b (lookup_log st) (final out)" using w by simp
  show "\<forall>st'. out = Return True st' \<longrightarrow> length (queue st') < ?b" using w by simp
  show "lookup_log (final out) \<noteq> lookup_log st
           \<longleftrightarrow> accepts ev st raw \<and> Suc (length (queue st)) = ?b"
  proof (cases "accepts ev st raw")
    case False
    then show ?thesis using n by auto
  next
    case True
    then have lw: "lookup_while ev ?s1 = Some out" using os by (simp add: on_status_eq)
    show ?thesis
    proof (cases "Suc (length (queue st)) = ?b")
      case False
      then have "Suc (length (queue st)) < ?b" using len by simp
      then have "out = Return True ?s1" using a True by simp
      then show ?thesis using False l1 by simp
    next
      case eq: True
      have "cap_inv ?b (lookup_log ?s1) ?s1" using c1 l1 by simp
      moreover have "length (queue ?s1) = ?b" using eq l1 by simp
      ultimately obtain ids reqs where "lookup_log (final out) = lookup_log ?s1 @ ids # reqs"
        using lookup_while_calls[OF lw] by blast
      then show ?thesis using True eq l1 by simp
    qed
  qed
qed


lemma run_cap:
  assumes "length (queue st) < BATCH_SIZE st" "chains_ok st" "run ev raws st = Some out"
  shows "cap_inv (BATCH_SIZE st) (lookup_log st) (final out)
         \<and> (\<forall>st'. out = Return True st' \<longrightarrow> length (queue st') < BATCH_SIZE st)"
  using assms
proof (induction raws arbitrary: st)
  case Nil
  then show ?case by (auto simp add: cap_inv_def)
next
  case (Cons raw raws)
  show ?case
  proof (cases "on_status ev raw st")
    case None
    then show ?thesis using Cons.prems by simp
  next
    case (Some o1)
    note c = on_status_cap(1,2)[OF Cons.prems(1,2) Some]
    show ?thesis
    proof (cases o1)
      case (Raise e s)
      then show ?thesis using Some Cons.prems c by auto
    next
      case (Return okv s)
      show ?thesis
      proof (cases okv)
        case False
        then show ?thesis using Some Cons.prems c Return by auto
      next
        case True
        then have r: "run ev raws s = Some out" using Some Cons.prems Return by simp
        have cs: "cap_inv (BATCH_SIZE st) (lookup_log st) s" using c(1) Return by simp
        have ls: "length (queue s) < BATCH_SIZE st" using c(2) Return True by simp
        have bs: "BATCH_SIZE s = BATCH_SIZE st" and oks: "chains_ok s"
          using cs by (simp_all add: cap_inv_def)
        have ih: "cap_inv (BATCH_SIZE st) (lookup_log s) (final out)
              \<and> (\<forall>st'. out = Return True st' \<longrightarrow> length (queue st') < BATCH_SIZE st)"
          using Cons.IH[of s] ls bs oks r by simp
        obtain rs where rs: "lookup_log s = lookup_log st @ rs"
          "list_all (\<lambda>r. length r = BATCH_SIZE st) rs"
          using cs by (auto simp add: cap_inv_def)
        have "cap_inv (BATCH_SIZE st) (lookup_log st) (final out)"
          using ih rs cap_inv_trans[of "BATCH_SIZE st" "lookup_log st" rs "final out"] by simp
        then show ?thesis using ih by simp
      qed
    qed
  qed
qed

lemma lookup_length:
  assumes "length (queue st) = BATCH_SIZE st"
  shows "length (queue (final (lookup ev st))) \<le> BATCH_SIZE st
         \<and> BATCH_SIZE (final (lookup ev st)) = BATCH_SIZE st"
proof (rule lookup_final[where P = "\<lambda>s. length (queue s) = BATCH_SIZE st \<and> BATCH_SIZE s = BATCH_SIZE st"
      and Q = "\<lambda>s. length (queue s) \<le> BATCH_SIZE st \<and> BATCH_SIZE s = BATCH_SIZE st"])
  show "length (queue (st'\<lparr>queue := dellist (queue st') di\<rparr>)) \<le> BATCH_SIZE st
        \<and> BATCH_SIZE (st'\<lparr>queue := dellist (queue st') di\<rparr>) = BATCH_SIZE st"
    if "length (queue st') = BATCH_SIZE st \<and> BATCH_SIZE st' = BATCH_SIZE st" for st' di
    using that length_dellist[of "queue st'" di] by simp
qed (simp_all add: assms)

lemma sample_on_status:
  "\<exists>out. on_status (sample_env [sample_parent]) sample_raw (sample_listener 1) = Some out
        \<and> lookup_log (final out) = [[Some 10]] \<and> queue (final out) = []"
  by (simp add: sample_env_def sample_raw_def sample_parent_def sample_listener_def
      on_status_def Let_def need_check_def needless_check_def dump_filter_def length_check_def
      admit_def lookup_while.simps lookup_def py_last_def py_nth_def mk_dic_def mk_tweet_def
      lookup_body_def py_str_opt_def py_str_def talker_check_def conclude_def dump_data_def
      dellist_def enumerate_eq_zip upt_conv_Cons)

lemma sample_accepts:
  "accepts (sample_env rs) (sample_listener b) sample_raw"
  by (simp add: accepts_def sample_env_def sample_raw_def sample_listener_def Let_def
      need_check_def needless_check_def dump_filter_def length_check_def)


lemma sample_on_status_below:
  "\<exists>out. on_status (sample_env rs) sample_raw (sample_listener 2) = Some out"
  by (simp add: on_status_eq sample_accepts lookup_while.simps admit_def sample_listener_def)

section \<open>Two chains that ask for the same parent\<close>

lemma collect_ids_singletons:
  "collect_ids (map (\<lambda>k. [f k]) ks) = Inr (map (\<lambda>k. tw_reply_to (fst (f k))) ks)"
  by (induction ks) (simp_all add: py_last_def)

lemma lookup_loop_absent:
  assumes "\<forall>idx \<in> set idxs. idx < length ids \<and> dic (py_str_opt (ids ! idx)) = None
             \<and> idx < length (queue st) \<and> length (queue st ! idx) < 2"
  shows "lookup_loop ev ids idxs (dic, st, di) = Next (dic, st, di @ idxs)"
  using assms
  by (induction idxs arbitrary: di) (simp_all add: lookup_body_def py_nth_def conclude_def)

lemma filler_facts:
  "length filler = 98"
  "i < 98 \<Longrightarrow> filler ! i = [sample_tweet (Some 5) 6 [[12354]] (int (13 + i))]"
  "collect_ids filler = Inr (replicate 98 (Some 5))"
  by (simp_all add: filler_def collect_ids_singletons sample_tweet_def map_replicate_const
      del: upt_rec_numeral)


lemma upt_100: "[0..<100] = 0 # 1 # [2..<100]"
  by (simp add: upt_conv_Cons del: upt_rec_numeral)

lemma shared_ids:
  "collect_ids (queue shared_batch) = Inr (Some 10 # Some 10 # replicate 98 (Some 5))"
  "collect_ids (queue lone_batch) = Inr (Some 5 # Some 10 # replicate 98 (Some 5))"
  by (simp_all add: shared_batch_def lone_batch_def sample_listener_def filler_facts py_last_def
      sample_tweet_def)

lemma shared_batch_lookup:
  "\<exists>s. lookup (sample_env [sample_parent]) shared_batch = Raise TypeError s
       \<and> length (queue s) = 100 \<and> dump_count s = 1"
  by (simp add: lookup_def shared_ids upt_100 Let_def shared_batch_def sample_listener_def
      sample_env_def sample_parent_def sample_tweet_def mk_dic_def mk_tweet_def
      lookup_body_def py_nth_def py_last_def py_str_opt_def py_str_def talker_check_def
      need_check_def needless_check_def dump_filter_def length_check_def conclude_def
      dump_data_def filler_facts del: upt_rec_numeral)


lemma dellist_all: "\<forall>i < length xs. i \<in> set di \<Longrightarrow> dellist xs di = []"
  by (auto simp add: dellist_def filter_empty_conv in_set_enumerate_eq)

lemma absent_tail:
  assumes "ids = a # b # replicate 98 (Some 5)" "dic [53] = None" "queue st = x # y # filler"
  shows "lookup_loop ev ids [2..<100] (dic, st, di) = Next (dic, st, di @ [2..<100])"
proof (rule lookup_loop_absent)
  show "\<forall>idx \<in> set [2..<100]. idx < length ids \<and> dic (py_str_opt (ids ! idx)) = None
          \<and> idx < length (queue st) \<and> length (queue st ! idx) < 2"
    using assms by (auto simp add: nth_Cons' filler_facts py_str_opt_def py_str_def)
qed

lemma dellist_batch: "dellist (x # y # filler) (0 # Suc 0 # [2..<100]) = []"
proof (rule dellist_all)
  show "\<forall>i < length (x # y # filler). i \<in> set (0 # Suc 0 # [2..<100])"
    by (auto simp add: filler_facts simp del: upt_rec_numeral)
qed

lemma lone_batch_lookup:
  "\<exists>s. lookup (sample_env [sample_parent]) lone_batch = Return True s
       \<and> queue s = [] \<and> dump_count s = 1
       \<and> dump_log s = [[(\<lparr>tw_reply_to = None, tw_user = 8, tw_text = Toks [[12354]], tw_id = 10\<rparr>, [[110]]),
                         sample_tweet (Some 10) 9 [[12354]] 12]]"
  by (simp add: lookup_def shared_ids upt_100 Let_def lone_batch_def sample_listener_def
      sample_env_def sample_parent_def sample_tweet_def mk_dic_def mk_tweet_def
      lookup_body_def py_nth_def py_last_def py_str_opt_def py_str_def talker_check_def
      need_check_def needless_check_def dump_filter_def length_check_def conclude_def
      dump_data_def filler_facts absent_tail dellist_batch del: upt_rec_numeral)


section \<open>Chains that stay in the queue\<close>
















section \<open>Writing a dialog\<close>




section \<open>Dumped chains alternate between two speakers\<close>

text \<open>
  C3. In every run that starts with an empty queue, each dialog handed to
  \<^verbatim>\<open>dump_data\<close> is a strict two-party alternation: the authors of any two adjacent
  entries differ, and the author of any entry at position \<open>i \<ge> 2\<close> is the author two
  positions before.
\<close>

theorem dumped_chains_alternate:
  assumes "queue st = []" and "dump_log st = []" and "run ev raws st = Some out"
  shows "\<forall>d \<in> set (dump_log (final out)).
           (\<forall>i. Suc i < length d \<longrightarrow> author (d ! i) \<noteq> author (d ! Suc i))
           \<and> (\<forall>i. 2 \<le> i \<and> i < length d \<longrightarrow> author (d ! i) = author (d ! (i - 2)))"
proof
  fix d assume d: "d \<in> set (dump_log (final out))"
  have "alt_inv st" using assms(1,2) by (simp add: alt_inv_def)
  then have "alt_inv (final out)" using assms(3) by (rule run_alt)
  then have a: "alt2 (map author d)" using d by (simp add: alt_inv_def)
  have a1: "\<And>i. Suc i < length d \<Longrightarrow> map author d ! i \<noteq> map author d ! Suc i"
    using a unfolding alt2_def by simp
  have a2: "\<And>i. Suc (Suc i) < length d \<Longrightarrow> map author d ! Suc (Suc i) = map author d ! i"
    using a unfolding alt2_def by simp
  show "(\<forall>i. Suc i < length d \<longrightarrow> author (d ! i) \<noteq> author (d ! Suc i))
        \<and> (\<forall>i. 2 \<le> i \<and> i < length d \<longrightarrow> author (d ! i) = author (d ! (i - 2)))"
  proof (intro conjI allI impI)
    fix i assume i: "Suc i < length d"
    then show "author (d ! i) \<noteq> author (d ! Suc i)"
      using a1[OF i] by simp
  next
    fix i assume i: "2 \<le> i \<and> i < length d"
    define j where "j = i - 2"
    have ij: "i = Suc (Suc j)" using i unfolding j_def by arith
    then have "Suc (Suc j) < length d" using i by simp
    then have "map author d ! Suc (Suc j) = map author d ! j" by (rule a2)
    moreover have "i - 2 = j" by (simp add: j_def)
    ultimately show "author (d ! i) = author (d ! (i - 2))" using i ij by simp
  qed
qed

theorem dumped_chains_alternate_witness:
  "queue (sample_listener 1) = [] \<and> dump_log (sample_listener 1) = []
   \<and> (\<exists>out. run (sample_env [sample_parent]) [sample_raw] (sample_listener 1) = Some out
        \<and> length (dump_log (final out)) = 1
        \<and> (\<forall>d \<in> set (dump_log (final out)).
             (\<forall>i. Suc i < length d \<longrightarrow> author (d ! i) \<noteq> author (d ! Suc i))
             \<and> (\<forall>i. 2 \<le> i \<and> i < length d \<longrightarrow> author (d ! i) = author (d ! (i - 2)))))"
proof -
  have q: "queue (sample_listener 1) = []" and l: "dump_log (sample_listener 1) = []"
    by (simp_all add: sample_listener_def)
  obtain out where r: "run (sample_env [sample_parent]) [sample_raw] (sample_listener 1) = Some out"
    and n: "length (dump_log (final out)) = 1"
    using sample_run by blast
  show ?thesis
    using q l r n dumped_chains_alternate [OF q l r] by blast
qed


section \<open>A check point that cannot be parsed\<close>

text \<open>
  C7. A check point file that exists and opens but is empty is a read failure the
  constructor does not survive: \<^verbatim>\<open>int('')\<close> raises \<^verbatim>\<open>ValueError\<close> in the \<^verbatim>\<open>else\<close> branch
  of the \<^verbatim>\<open>try\<close>, the exception leaves \<^verbatim>\<open>load_check_point\<close> and the constructor, and the
  reconnect loop builds the listener again from the same file, so no session starts.
\<close>

theorem load_check_point_empty_file:
  "load_check_point ev ((sample_listener 100)\<lparr>check_point := empty_check_point\<rparr>)
     = Inl (ValueError, (sample_listener 100)\<lparr>check_point := empty_check_point\<rparr>)
   \<and> init (sample_world (GoodConfig sample_config) empty_check_point) = Inl ValueError
   \<and> twitter_iter (sample_world (GoodConfig sample_config) empty_check_point) Stopped start_loop
       = Continue (start_loop\<lparr>tcpip_delay := 1 / 2\<rparr>)"
  by (simp add: load_check_point_def init_def twitter_iter_def handler_def Let_def
      empty_check_point_def sample_world_def sample_listener_def sample_config_def
      start_loop_def py_int_def strip_def)

section \<open>A missing configuration does not end the process\<close>

text \<open>
  C6. Without a configuration file the constructor calls \<^verbatim>\<open>sys.exit(1)\<close>, but the call
  is inside the \<^verbatim>\<open>try\<close> of the reconnect loop, whose bare \<^verbatim>\<open>except\<close> takes
  \<^verbatim>\<open>SystemExit\<close> too: the loop sleeps and goes round again, however often it is tried, and
  the process never exits.
\<close>

theorem missing_config_never_exits:
  "init (sample_world NoConfig sample_file) = Inl (SystemExit 1)
   \<and> (\<forall>n. \<exists>lp. twitter (replicate n (sample_world NoConfig sample_file, Stopped)) start_loop
                  = Continue lp)"
proof -
  have i: "init (sample_world NoConfig sample_file) = Inl (SystemExit 1)"
    by (simp add: init_def sample_world_def)
  have "\<exists>lp'. twitter (replicate n (sample_world NoConfig sample_file, Stopped)) lp = Continue lp'"
    for n lp
  proof (induction n arbitrary: lp)
    case 0
    then show ?case by simp
  next
    case (Suc n)
    then show ?case by (simp add: twitter_iter_def handler_def i)
  qed
  then show ?thesis using i by blast
qed

section \<open>lookup stays within the queue and the collected ids\<close>

text \<open>
  C10. When the queue holds exactly \<^verbatim>\<open>BATCH_SIZE\<close> chains, \<^verbatim>\<open>lookup\<close> collects one
  parent id per chain and then indexes the queue and the id list at \<open>0 .. BATCH_SIZE - 1\<close>
  only, so no index it uses on either of them is out of range: the call does not raise
  an \<^verbatim>\<open>IndexError\<close> of the queue or of the id list. The \<^verbatim>\<open>while\<close> loop of \<^verbatim>\<open>on_status\<close>
  does not call \<^verbatim>\<open>lookup\<close> at any other queue length, so no run, from whatever listener
  it starts, ends in such an error.
\<close>

theorem lookup_in_bounds:
  "(length (queue st) = BATCH_SIZE st \<longrightarrow>
      (\<forall>ids. collect_ids (queue st) = Inr ids \<longrightarrow> length ids = BATCH_SIZE st)
      \<and> (\<forall>st'. lookup ev st \<noteq> Raise (IndexError OfQueue) st'
               \<and> lookup ev st \<noteq> Raise (IndexError OfIds) st'))
   \<and> (length (queue st) \<noteq> BATCH_SIZE st \<longrightarrow> lookup_while ev st = Some (Return True st))
   \<and> (\<forall>raws out st'. run ev raws st = Some out \<longrightarrow>
         out \<noteq> Raise (IndexError OfQueue) st' \<and> out \<noteq> Raise (IndexError OfIds) st')"
proof (intro conjI impI allI)
  fix ids assume "length (queue st) = BATCH_SIZE st" "collect_ids (queue st) = Inr ids"
  then show "length ids = BATCH_SIZE st" using collect_ids_length[of "queue st" ids] by simp
next
  fix st' assume "length (queue st) = BATCH_SIZE st"
  then show "lookup ev st \<noteq> Raise (IndexError OfQueue) st'" by (rule lookup_no_index) simp
next
  fix st' assume "length (queue st) = BATCH_SIZE st"
  then show "lookup ev st \<noteq> Raise (IndexError OfIds) st'" by (rule lookup_no_index) simp
next
  assume "length (queue st) \<noteq> BATCH_SIZE st"
  then show "lookup_while ev st = Some (Return True st)" by (simp add: lookup_while.simps)
next
  fix raws out st' assume "run ev raws st = Some out"
  then show "out \<noteq> Raise (IndexError OfQueue) st'" by (rule run_no_index) simp
next
  fix raws out st' assume "run ev raws st = Some out"
  then show "out \<noteq> Raise (IndexError OfIds) st'" by (rule run_no_index) simp
qed

theorem lookup_in_bounds_witness:
  "length (queue sample_full) = BATCH_SIZE sample_full
   \<and> collect_ids (queue sample_full) = Inr [Some 10]
   \<and> length [Some (10::int)] = BATCH_SIZE sample_full
   \<and> (\<exists>s. lookup (sample_env [sample_parent]) sample_full = Return True s)
   \<and> (\<forall>st'. lookup (sample_env [sample_parent]) sample_full \<noteq> Raise (IndexError OfQueue) st'
            \<and> lookup (sample_env [sample_parent]) sample_full \<noteq> Raise (IndexError OfIds) st')
   \<and> length (queue (sample_listener 1)) \<noteq> BATCH_SIZE (sample_listener 1)
   \<and> lookup_while (sample_env [sample_parent]) (sample_listener 1) = Some (Return True (sample_listener 1))
   \<and> (\<exists>out. run (sample_env [sample_parent]) [sample_raw] (sample_listener 1) = Some out
         \<and> (\<forall>st'. out \<noteq> Raise (IndexError OfQueue) st' \<and> out \<noteq> Raise (IndexError OfIds) st'))"
proof -
  have h: "length (queue sample_full) = BATCH_SIZE sample_full"
    "collect_ids (queue sample_full) = Inr [Some 10]"
    "length (queue (sample_listener 1)) \<noteq> BATCH_SIZE (sample_listener 1)"
    by (simp_all add: sample_full_def sample_listener_def admit_def sample_tweet_def py_last_def)
  obtain out where r: "run (sample_env [sample_parent]) [sample_raw] (sample_listener 1) = Some out"
    using sample_run by blast
  let ?ev = "sample_env [sample_parent]"
  note a = lookup_in_bounds [of sample_full ?ev]
  have a1: "length [Some (10::int)] = BATCH_SIZE sample_full" using a h(1,2) by blast
  have a2: "\<forall>st'. lookup ?ev sample_full \<noteq> Raise (IndexError OfQueue) st'
                \<and> lookup ?ev sample_full \<noteq> Raise (IndexError OfIds) st'"
    using a h(1) by blast
  note b = lookup_in_bounds [of "sample_listener 1" ?ev]
  have b1: "lookup_while ?ev (sample_listener 1) = Some (Return True (sample_listener 1))"
    using b h(3) by blast
  have b2: "\<forall>st'. out \<noteq> Raise (IndexError OfQueue) st' \<and> out \<noteq> Raise (IndexError OfIds) st'"
    using b r by blast
  have c: "\<exists>s. lookup ?ev sample_full = Return True s" using sample_lookup by blast
  show ?thesis
    using h a1 a2 b1 r b2 c by blast
qed


section \<open>The queue never outgrows the batch size\<close>

text \<open>
  C4. A call of \<^verbatim>\<open>lookup\<close> on a queue of \<^verbatim>\<open>BATCH_SIZE\<close> chains leaves at most that many.
  From a listener whose queue is below \<^verbatim>\<open>BATCH_SIZE\<close> and holds no empty chain (the
  constructor's empty queue is one), every call of \<^verbatim>\<open>on_status\<close> that returns leaves a
  queue of at most \<^verbatim>\<open>BATCH_SIZE\<close> chains, and one below it when it returns \<^verbatim>\<open>True\<close>, so
  the next call starts as this one did. A message that is not accepted changes nothing;
  an accepted one appends one chain, and \<^verbatim>\<open>lookup\<close> is called (a request goes out to the
  lookup service, each with \<^verbatim>\<open>BATCH_SIZE\<close> ids) exactly when that chain brings the queue
  to \<^verbatim>\<open>BATCH_SIZE\<close>. The same bounds hold at the end of every run.
\<close>

theorem batch_capacity:
  "(length (queue st) = BATCH_SIZE st \<longrightarrow>
      length (queue (final (lookup ev st))) \<le> BATCH_SIZE st
      \<and> BATCH_SIZE (final (lookup ev st)) = BATCH_SIZE st)
   \<and> (length (queue st) < BATCH_SIZE st \<and> chains_ok st \<longrightarrow>
        (\<forall>raw out. on_status ev raw st = Some out \<longrightarrow>
           BATCH_SIZE (final out) = BATCH_SIZE st
           \<and> length (queue (final out)) \<le> BATCH_SIZE st
           \<and> (\<forall>st'. out = Return True st' \<longrightarrow>
                 length (queue st') < BATCH_SIZE st \<and> chains_ok st')
           \<and> (\<not> accepts ev st raw \<longrightarrow> out = Return True st)
           \<and> (accepts ev st raw \<and> Suc (length (queue st)) < BATCH_SIZE st
                 \<longrightarrow> out = Return True (admit st (entry_of ev st raw)))
           \<and> (\<exists>reqs. lookup_log (final out) = lookup_log st @ reqs
                 \<and> (\<forall>r \<in> set reqs. length r = BATCH_SIZE st)
                 \<and> (reqs \<noteq> [] \<longleftrightarrow>
                      accepts ev st raw \<and> Suc (length (queue st)) = BATCH_SIZE st)))
        \<and> (\<forall>raws out. run ev raws st = Some out \<longrightarrow>
              BATCH_SIZE (final out) = BATCH_SIZE st
              \<and> length (queue (final out)) \<le> BATCH_SIZE st
              \<and> (\<forall>st'. out = Return True st' \<longrightarrow> length (queue st') < BATCH_SIZE st)
              \<and> (\<exists>reqs. lookup_log (final out) = lookup_log st @ reqs
                    \<and> (\<forall>r \<in> set reqs. length r = BATCH_SIZE st))))"
proof (intro conjI impI allI)
  assume "length (queue st) = BATCH_SIZE st"
  then show "length (queue (final (lookup ev st))) \<le> BATCH_SIZE st"
    and "BATCH_SIZE (final (lookup ev st)) = BATCH_SIZE st"
    using lookup_length[of st ev] by simp_all
next
  fix raw out
  assume p: "length (queue st) < BATCH_SIZE st \<and> chains_ok st"
    and os: "on_status ev raw st = Some out"
  have len: "length (queue st) < BATCH_SIZE st" and ok: "chains_ok st" using p by simp_all
  note c = on_status_cap[OF len ok os]
  show "BATCH_SIZE (final out) = BATCH_SIZE st" using c(1) by (simp add: cap_inv_def)
  show "length (queue (final out)) \<le> BATCH_SIZE st" using c(1) by (simp add: cap_inv_def)
  show "\<not> accepts ev st raw \<Longrightarrow> out = Return True st" using c(3) by simp
  show "accepts ev st raw \<and> Suc (length (queue st)) < BATCH_SIZE st
          \<Longrightarrow> out = Return True (admit st (entry_of ev st raw))" using c(4) by simp
  obtain reqs where r: "lookup_log (final out) = lookup_log st @ reqs"
    "list_all (\<lambda>r. length r = BATCH_SIZE st) reqs"
    using c(1) by (auto simp add: cap_inv_def)
  have "reqs \<noteq> [] \<longleftrightarrow> accepts ev st raw \<and> Suc (length (queue st)) = BATCH_SIZE st"
    using c(5) r(1) by simp
  then show "\<exists>reqs. lookup_log (final out) = lookup_log st @ reqs
                 \<and> (\<forall>r \<in> set reqs. length r = BATCH_SIZE st)
                 \<and> (reqs \<noteq> [] \<longleftrightarrow>
                      accepts ev st raw \<and> Suc (length (queue st)) = BATCH_SIZE st)"
    using r by (intro exI[of _ reqs]) (simp add: list_all_iff)
  fix st' assume o: "out = Return True st'"
  show "length (queue st') < BATCH_SIZE st" using c(2) o by simp
  show "chains_ok st'" using c(1) o by (simp add: cap_inv_def)
next
  fix raws out
  assume p: "length (queue st) < BATCH_SIZE st \<and> chains_ok st"
    and r: "run ev raws st = Some out"
  have c: "cap_inv (BATCH_SIZE st) (lookup_log st) (final out)
         \<and> (\<forall>st'. out = Return True st' \<longrightarrow> length (queue st') < BATCH_SIZE st)"
    using p r run_cap[of st ev raws out] by simp
  show "BATCH_SIZE (final out) = BATCH_SIZE st" using c by (simp add: cap_inv_def)
  show "length (queue (final out)) \<le> BATCH_SIZE st" using c by (simp add: cap_inv_def)
  show "\<exists>reqs. lookup_log (final out) = lookup_log st @ reqs
                    \<and> (\<forall>r \<in> set reqs. length r = BATCH_SIZE st)"
    using c by (auto simp add: cap_inv_def list_all_iff)
  fix st' assume "out = Return True st'"
  then show "length (queue st') < BATCH_SIZE st" using c by simp
qed

theorem batch_capacity_witness:
  "length (queue sample_full) = BATCH_SIZE sample_full
   \<and> length (queue (final (lookup (sample_env [sample_parent]) sample_full))) \<le> BATCH_SIZE sample_full
   \<and> length (queue (sample_listener 1)) < BATCH_SIZE (sample_listener 1)
   \<and> chains_ok (sample_listener 1)
   \<and> accepts (sample_env [sample_parent]) (sample_listener 1) sample_raw
   \<and> Suc (length (queue (sample_listener 1))) = BATCH_SIZE (sample_listener 1)
   \<and> (\<exists>out. on_status (sample_env [sample_parent]) sample_raw (sample_listener 1) = Some out
         \<and> lookup_log (final out) = [[Some 10]]
         \<and> length (queue (final out)) \<le> BATCH_SIZE (sample_listener 1)
         \<and> (\<exists>reqs. lookup_log (final out) = lookup_log (sample_listener 1) @ reqs
               \<and> list_all (\<lambda>r. length r = BATCH_SIZE (sample_listener 1)) reqs \<and> reqs \<noteq> []))
   \<and> length (queue (sample_listener 2)) < BATCH_SIZE (sample_listener 2)
   \<and> chains_ok (sample_listener 2)
   \<and> Suc (length (queue (sample_listener 2))) < BATCH_SIZE (sample_listener 2)
   \<and> (\<exists>out. on_status (sample_env [sample_parent]) sample_raw (sample_listener 2) = Some out
         \<and> out = Return True (admit (sample_listener 2)
                                 (entry_of (sample_env [sample_parent]) (sample_listener 2) sample_raw)))
   \<and> (\<exists>out. run (sample_env [sample_parent]) [sample_raw] (sample_listener 1) = Some out
         \<and> length (queue (final out)) \<le> BATCH_SIZE (sample_listener 1))"
proof -
  let ?ev = "sample_env [sample_parent]"
  have h: "length (queue sample_full) = BATCH_SIZE sample_full"
    "length (queue (sample_listener 1)) < BATCH_SIZE (sample_listener 1)"
    "chains_ok (sample_listener 1)"
    "Suc (length (queue (sample_listener 1))) = BATCH_SIZE (sample_listener 1)"
    "length (queue (sample_listener 2)) < BATCH_SIZE (sample_listener 2)"
    "chains_ok (sample_listener 2)"
    "Suc (length (queue (sample_listener 2))) < BATCH_SIZE (sample_listener 2)"
    by (simp_all add: sample_full_def sample_listener_def admit_def chains_ok_def)
  have a: "accepts ?ev (sample_listener 1) sample_raw" "accepts ?ev (sample_listener 2) sample_raw"
    by (rule sample_accepts)+
  obtain o1 where o1: "on_status ?ev sample_raw (sample_listener 1) = Some o1"
    "lookup_log (final o1) = [[Some 10]]"
    using sample_on_status by blast
  obtain o2 where o2: "run ?ev [sample_raw] (sample_listener 1) = Some o2"
    using sample_run by blast
  obtain o3 where o3: "on_status ?ev sample_raw (sample_listener 2) = Some o3"
    using sample_on_status_below by blast
  note t0 = batch_capacity [of sample_full ?ev]
  note t1 = batch_capacity [of "sample_listener 1" ?ev]
  note t2 = batch_capacity [of "sample_listener 2" ?ev]
  have w0: "length (queue (final (lookup ?ev sample_full))) \<le> BATCH_SIZE sample_full"
    using t0 h(1) by blast
  have w1: "length (queue (final o1)) \<le> BATCH_SIZE (sample_listener 1)
        \<and> (\<exists>reqs. lookup_log (final o1) = lookup_log (sample_listener 1) @ reqs
               \<and> list_all (\<lambda>r. length r = BATCH_SIZE (sample_listener 1)) reqs \<and> reqs \<noteq> [])"
    using t1 h(2,3,4) a(1) o1(1) unfolding list_all_iff by blast
  have w2: "o3 = Return True (admit (sample_listener 2) (entry_of ?ev (sample_listener 2) sample_raw))"
    using t2 h(5,6,7) a(2) o3 by blast
  have w3: "length (queue (final o2)) \<le> BATCH_SIZE (sample_listener 1)"
    using t1 h(2,3) o2 by blast
  show ?thesis
    using h a(1) o1 o2 o3 w0 w1 w2 w3 by blast
qed


section \<open>A parent shared by two chains\<close>

text \<open>
  C2. In a full batch whose chains 0 and 1 both answer message 10, chain 0 is extended by
  the looked-up message and dumped, and then the turn of chain 1 ends the call with a
  \<^verbatim>\<open>TypeError\<close>: the dictionary entry for message 10 is the list chain 0 has already
  written its words into, and \<^verbatim>\<open>check\<close> is handed that word list. The batch is left as
  it is, all 100 chains in the queue. When chain 1 is the only one that asks for message
  10, it is extended by it and dumped, and the call returns \<^verbatim>\<open>True\<close>.
\<close>

theorem shared_parent_raises:
  "(\<exists>s. lookup (sample_env [sample_parent]) shared_batch = Raise TypeError s
        \<and> length (queue s) = 100 \<and> dump_count s = 1)
   \<and> (\<exists>s. lookup (sample_env [sample_parent]) lone_batch = Return True s
        \<and> queue s = [] \<and> dump_count s = 1
        \<and> dump_log s = [[(\<lparr>tw_reply_to = None, tw_user = 8, tw_text = Toks [[12354]], tw_id = 10\<rparr>, [[110]]),
                          sample_tweet (Some 10) 9 [[12354]] 12]])"
  using shared_batch_lookup lone_batch_lookup by blast

section \<open>Seen ids end chains\<close>





end
